theory Spec2Isabelle
  imports Main
begin

section \<open>Data model of the task store (class TaskManager)\<close>

text \<open>
  The four status strings and the four priority strings of the data model. A task's
  \<open>priority\<close> is a string or \<open>null\<close>: \<open>None\<close> is JavaScript's \<open>null\<close>.
\<close>

datatype status = NotStarted | InProgress | Blocked | Completed

datatype priority = Low | Medium | High | Critical

type_synonym timestamp = nat

text \<open>
  A JavaScript string is a sequence of UTF-16 code units. \<open>js\<close> turns a literal of ASCII
  characters into such a string.
\<close>

type_synonym jsString = "nat list"

definition js :: "string \<Rightarrow> jsString" where
  "js s = map of_char s"

record taskNote =
  n_timestamp :: timestamp
  n_content :: jsString

record task =
  task_id :: nat
  name :: jsString
  dueDate :: "jsString option"
  status :: status
  project :: "jsString option"
  priority :: "priority option"
  task_notes :: "taskNote list"
  parentTaskId :: "nat option"
  childTaskIds :: "nat list"
  deleted :: bool
  deletedAt :: "timestamp option"

text \<open>
  The \<open>updates\<close> object of \<open>updateTask\<close>, and the \<open>previousState\<close> and \<open>newState\<close>
  objects of a modify action. A field is \<open>None\<close> when the key is not in the object
  (\<open>undefined\<close>); \<open>Some None\<close> is an explicit \<open>null\<close>.
\<close>

record updates =
  u_name :: "jsString option"
  u_dueDate :: "jsString option option"
  u_status :: "status option"
  u_project :: "jsString option option"
  u_priority :: "priority option option"
  u_notes :: "taskNote list option"
  u_parentTaskId :: "nat option option"

text \<open>
  The input of \<open>createTask\<close>. \<open>None\<close> stands for a key that is \<open>undefined\<close> or \<open>null\<close>;
  the source treats both alike in every field.
\<close>

record taskData =
  d_name :: "jsString option"
  d_dueDate :: "jsString option"
  d_status :: "status option"
  d_project :: "jsString option"
  d_priority :: "priority option"
  d_notes :: "taskNote list option"
  d_parentTaskId :: "nat option"

text \<open>
  The actions of the undo and redo stacks, by their \<open>type\<close> field. \<open>ActOther\<close> is an
  action object of any other type, which \<open>undo\<close> and \<open>redo\<close> reject in their
  \<open>default\<close> branch.
\<close>

datatype action =
    ActCreate nat timestamp
  | ActModify nat updates updates timestamp
  | ActDelete nat "nat list" timestamp
  | ActRestore nat timestamp
  | ActOther string nat

text \<open>
  Every \<open>throw new Error(...)\<close> of the source, one constructor for each message.
\<close>

datatype error =
    TaskNameRequired
  | ParentNotFound nat
  | MaxHierarchyCreate
  | TaskNotFound nat
  | MaxHierarchyUpdate
  | CircularReference
  | TaskNotDeleted nat
  | NothingToUndo
  | NothingToRedo
  | UnknownActionType string

text \<open>
  The object store \<open>tasks\<close> of the database is a list of records in ascending key order,
  as \<open>getAll\<close> returns them. \<open>get\<close> and \<open>put\<close> copy the record (structured clone), so
  a task read into a local variable does not change when the stored record does.
\<close>

type_synonym db = "task list"

record store =
  tasks :: db
  nextId :: "nat option"
  undoStack :: "action list"
  redoStack :: "action list"

definition maxHistorySize :: nat where
  "maxHistorySize = 20"

definition emptyStore :: store where
  "emptyStore = \<lparr>tasks = [], nextId = None, undoStack = [], redoStack = []\<rparr>"

section \<open>Reading and writing records\<close>

definition getTaskById :: "db \<Rightarrow> nat \<Rightarrow> task option" where
  "getTaskById d k = find (\<lambda>t. task_id t = k) d"

fun saveTask :: "db \<Rightarrow> task \<Rightarrow> db" where
  "saveTask [] t = [t]"
| "saveTask (x # xs) t =
     (if task_id t = task_id x then t # xs
      else if task_id t < task_id x then t # x # xs
      else x # saveTask xs t)"

definition getAllTasks :: "db \<Rightarrow> bool \<Rightarrow> task list" where
  "getAllTasks d includeDeleted =
     (if includeDeleted then d else filter (\<lambda>t. \<not> deleted t) d)"

text \<open>
  \<open>nextId + 1\<close> on numbers, which are IEEE doubles: exact below \<open>2^53\<close>; from there on
  the sum is rounded to the nearest double, to the even one of two that are equally near.
  The argument is a whole number that a double can hold. \<open>below k n\<close> is \<open>n < 2^k\<close>,
  found by halving \<open>n\<close> \<open>k\<close> times.
\<close>

fun halved :: "nat \<Rightarrow> nat \<Rightarrow> nat" where
  "halved 0 n = n"
| "halved (Suc k) n = halved k (n div 2)"

definition below :: "nat \<Rightarrow> nat \<Rightarrow> bool" where
  "below k n \<longleftrightarrow> halved k n = 0"

definition plusOne :: "nat \<Rightarrow> nat" where
  "plusOne n =
     (if below 53 n then n + 1
      else if below 54 n then (if even (n div 2) then n else n + 2)
      else n)"

definition getNextId :: "store \<Rightarrow> nat \<times> store" where
  "getNextId s =
     (let n = (case nextId s of None \<Rightarrow> 1 | Some v \<Rightarrow> v)
      in (n, s\<lparr>nextId := Some (plusOne n)\<rparr>))"

section \<open>History\<close>

definition recordAction :: "store \<Rightarrow> action \<Rightarrow> store" where
  "recordAction s a =
     (let u = undoStack s @ [a];
          u' = (if length u > maxHistorySize then tl u else u)
      in s\<lparr>undoStack := u', redoStack := []\<rparr>)"

section \<open>Hierarchy queries\<close>

text \<open>
  The loops and recursions over the hierarchy may run forever on a store with a cycle.
  They take a bound on the number of nested steps; \<open>None\<close> is a run that exceeds it.
\<close>

fun getTaskDepth_loop :: "nat \<Rightarrow> db \<Rightarrow> nat \<Rightarrow> task \<Rightarrow> nat option" where
  "getTaskDepth_loop 0 d depth current = None"
| "getTaskDepth_loop (Suc n) d depth current =
     (case parentTaskId current of
        None \<Rightarrow> Some depth
      | Some p \<Rightarrow>
          (case getTaskById d p of
             None \<Rightarrow> Some (depth + 1)
           | Some par \<Rightarrow> getTaskDepth_loop n d (depth + 1) par))"

definition getTaskDepth :: "nat \<Rightarrow> db \<Rightarrow> task \<Rightarrow> nat option" where
  "getTaskDepth n d t = getTaskDepth_loop n d 0 t"

fun getMaxChildDepth_loop :: "nat \<Rightarrow> db \<Rightarrow> nat \<Rightarrow> nat list \<Rightarrow> nat option" where
  "getMaxChildDepth_loop n d maxDepth [] = Some maxDepth"
| "getMaxChildDepth_loop n d maxDepth (c # cs) =
     (case getTaskById d c of
        None \<Rightarrow> getMaxChildDepth_loop n d maxDepth cs
      | Some child \<Rightarrow>
          (case n of
             0 \<Rightarrow> None
           | Suc m \<Rightarrow>
               (case getMaxChildDepth_loop m d 0 (childTaskIds child) of
                  None \<Rightarrow> None
                | Some cd \<Rightarrow> getMaxChildDepth_loop n d (max maxDepth (1 + cd)) cs)))"

definition getMaxChildDepth :: "nat \<Rightarrow> db \<Rightarrow> task \<Rightarrow> nat option" where
  "getMaxChildDepth n d t = getMaxChildDepth_loop n d 0 (childTaskIds t)"

fun isDescendant :: "nat \<Rightarrow> db \<Rightarrow> nat \<Rightarrow> nat \<Rightarrow> bool option"
  and isDescendant_loop :: "nat \<Rightarrow> db \<Rightarrow> nat \<Rightarrow> nat list \<Rightarrow> bool option" where
  "isDescendant 0 d taskId ancestorId = None"
| "isDescendant (Suc n) d taskId ancestorId =
     (case getTaskById d taskId of
        None \<Rightarrow> Some False
      | Some t \<Rightarrow>
          (case getTaskById d ancestorId of
             None \<Rightarrow> Some False
           | Some ancestor \<Rightarrow>
               if taskId \<in> set (childTaskIds ancestor) then Some True
               else isDescendant_loop n d taskId (childTaskIds ancestor)))"
| "isDescendant_loop n d taskId [] = Some False"
| "isDescendant_loop n d taskId (c # cs) =
     (case isDescendant n d taskId c of
        None \<Rightarrow> None
      | Some True \<Rightarrow> Some True
      | Some False \<Rightarrow> isDescendant_loop n d taskId cs)"

section \<open>Helpers shared by the operations\<close>

text \<open>
  \<open>parent.childTaskIds = parent.childTaskIds.filter(id => id !== taskId)\<close> followed by
  \<open>saveTask(parent)\<close>, when the parent record exists.
\<close>

definition removeChild :: "db \<Rightarrow> nat \<Rightarrow> nat \<Rightarrow> db" where
  "removeChild d parentId taskId =
     (case getTaskById d parentId of
        None \<Rightarrow> d
      | Some parent \<Rightarrow>
          saveTask d (parent\<lparr>childTaskIds := filter (\<lambda>i. i \<noteq> taskId) (childTaskIds parent)\<rparr>))"

text \<open>
  \<open>if (!parent.childTaskIds.includes(taskId)) { parent.childTaskIds.push(taskId);
  saveTask(parent) }\<close> on a parent record already read.
\<close>

definition pushChild :: "db \<Rightarrow> task \<Rightarrow> nat \<Rightarrow> db" where
  "pushChild d parent taskId =
     (if taskId \<notin> set (childTaskIds parent)
      then saveTask d (parent\<lparr>childTaskIds := childTaskIds parent @ [taskId]\<rparr>)
      else d)"

text \<open>
  \<open>Object.keys(updates).forEach(key => { if (key !== 'id' && key !== 'childTaskIds')
  task[key] = updates[key] })\<close> on the local copy of the task.
\<close>

definition applyUpdates :: "task \<Rightarrow> updates \<Rightarrow> task" where
  "applyUpdates t u =
     t\<lparr>name := (case u_name u of None \<Rightarrow> name t | Some v \<Rightarrow> v),
       dueDate := (case u_dueDate u of None \<Rightarrow> dueDate t | Some v \<Rightarrow> v),
       status := (case u_status u of None \<Rightarrow> status t | Some v \<Rightarrow> v),
       project := (case u_project u of None \<Rightarrow> project t | Some v \<Rightarrow> v),
       priority := (case u_priority u of None \<Rightarrow> priority t | Some v \<Rightarrow> v),
       task_notes := (case u_notes u of None \<Rightarrow> task_notes t | Some v \<Rightarrow> v),
       parentTaskId := (case u_parentTaskId u of None \<Rightarrow> parentTaskId t | Some v \<Rightarrow> v)\<rparr>"

text \<open>The \<open>previousState\<close> and \<open>newState\<close> objects recorded by \<open>updateTask\<close>.\<close>

definition stateOf :: "task \<Rightarrow> updates" where
  "stateOf t =
     \<lparr>u_name = Some (name t), u_dueDate = Some (dueDate t), u_status = Some (status t),
      u_project = Some (project t), u_priority = Some (priority t),
      u_notes = Some (task_notes t), u_parentTaskId = Some (parentTaskId t)\<rparr>"

text \<open>
  \<open>String.prototype.trim\<close> removes white space and line terminators from both ends:
  the code units U+0009 to U+000D, U+0020, U+00A0, U+1680, U+2000 to U+200A, U+2028,
  U+2029, U+202F, U+205F, U+3000 and U+FEFF.
\<close>

definition isSpace :: "nat \<Rightarrow> bool" where
  "isSpace c =
     (if c < 0x80 then (0x09 \<le> c \<and> c \<le> 0x0D) \<or> c = 0x20
      else c = 0xA0 \<or> c = 0x1680 \<or> (0x2000 \<le> c \<and> c \<le> 0x200A) \<or> c = 0x2028 \<or>
           c = 0x2029 \<or> c = 0x202F \<or> c = 0x205F \<or> c = 0x3000 \<or> c = 0xFEFF)"

definition trim :: "jsString \<Rightarrow> jsString" where
  "trim s = rev (dropWhile isSpace (rev (dropWhile isSpace s)))"

text \<open>\<open>x || null\<close> on an optional string: the empty string is falsy.\<close>

definition orNull :: "jsString option \<Rightarrow> jsString option" where
  "orNull x = (case x of None \<Rightarrow> None | Some v \<Rightarrow> if v = [] then None else Some v)"

section \<open>createTask\<close>

definition createTask ::
  "nat \<Rightarrow> timestamp \<Rightarrow> store \<Rightarrow> taskData \<Rightarrow> ((error + task) \<times> store) option" where
  "createTask n now s td =
     (case d_name td of
        None \<Rightarrow> Some (Inl TaskNameRequired, s)
      | Some nm \<Rightarrow>
          if nm = [] \<or> trim nm = [] then Some (Inl TaskNameRequired, s)
          else
            (case (case d_parentTaskId td of
                     None \<Rightarrow> Some None
                   | Some p \<Rightarrow>
                       (case getTaskById (tasks s) p of
                          None \<Rightarrow> Some (Some (ParentNotFound p))
                        | Some parent \<Rightarrow>
                            (case getTaskDepth n (tasks s) parent of
                               None \<Rightarrow> None
                             | Some parentDepth \<Rightarrow>
                                 if parentDepth \<ge> 2 then Some (Some MaxHierarchyCreate)
                                 else Some None))) of
               None \<Rightarrow> None
             | Some (Some e) \<Rightarrow> Some (Inl e, s)
             | Some None \<Rightarrow>
                 (let (taskId, s1) = getNextId s;
                      t = \<lparr>task_id = taskId,
                           name = trim nm,
                           dueDate = orNull (d_dueDate td),
                           status = (case d_status td of None \<Rightarrow> NotStarted | Some v \<Rightarrow> v),
                           project = orNull (d_project td),
                           priority = Some (case d_priority td of None \<Rightarrow> Medium | Some v \<Rightarrow> v),
                           task_notes = (case d_notes td of None \<Rightarrow> [] | Some v \<Rightarrow> v),
                           parentTaskId = d_parentTaskId td,
                           childTaskIds = [],
                           deleted = False,
                           deletedAt = None\<rparr>;
                      d1 = saveTask (tasks s1) t;
                      d2 = (case parentTaskId t of
                              None \<Rightarrow> d1
                            | Some p \<Rightarrow>
                                (case getTaskById d1 p of
                                   None \<Rightarrow> d1
                                 | Some parent \<Rightarrow> pushChild d1 parent (task_id t)))
                  in Some (Inr t, recordAction (s1\<lparr>tasks := d2\<rparr>) (ActCreate (task_id t) now)))))"

section \<open>updateTask and its cascades\<close>

fun completeAllDescendants :: "nat \<Rightarrow> db \<Rightarrow> nat list \<Rightarrow> db option" where
  "completeAllDescendants n d [] = Some d"
| "completeAllDescendants n d (c # cs) =
     (case getTaskById d c of
        None \<Rightarrow> completeAllDescendants n d cs
      | Some child \<Rightarrow>
          if status child \<noteq> Completed then
            (case n of
               0 \<Rightarrow> None
             | Suc m \<Rightarrow>
                 (let child' = child\<lparr>status := Completed, priority := None\<rparr>
                  in case completeAllDescendants m (saveTask d child') (childTaskIds child') of
                       None \<Rightarrow> None
                     | Some d' \<Rightarrow> completeAllDescendants n d' cs))
          else completeAllDescendants n d cs)"

definition areAllChildrenCompleted :: "db \<Rightarrow> task \<Rightarrow> bool" where
  "areAllChildrenCompleted d t =
     (if childTaskIds t = [] then False
      else list_all (\<lambda>childId.
             case getTaskById d childId of
               None \<Rightarrow> False
             | Some child \<Rightarrow> status child = Completed) (childTaskIds t))"

definition checkAndCompleteParent :: "db \<Rightarrow> task \<Rightarrow> db" where
  "checkAndCompleteParent d t =
     (if status t \<noteq> Completed \<or> parentTaskId t = None \<or> parentTaskId t = Some 0 then d
      else
        (case getTaskById d (the (parentTaskId t)) of
           None \<Rightarrow> d
         | Some parent \<Rightarrow>
             if status parent = Completed then d
             else if areAllChildrenCompleted d parent
               then saveTask d (parent\<lparr>status := Completed\<rparr>)
               else d))"

text \<open>
  The block of \<open>updateTask\<close> that handles a change of parent: detach from the old parent,
  then validate the new parent, then attach. The database it returns with an error is the
  one the \<open>throw\<close> leaves behind.
\<close>

definition updateTask_reparent ::
  "nat \<Rightarrow> db \<Rightarrow> task \<Rightarrow> nat \<Rightarrow> updates \<Rightarrow> (error option \<times> db) option" where
  "updateTask_reparent n d t taskId u =
     (case u_parentTaskId u of
        None \<Rightarrow> Some (None, d)
      | Some newParentId \<Rightarrow>
          if newParentId = parentTaskId t then Some (None, d)
          else
            (let d1 = (case parentTaskId t of
                         None \<Rightarrow> d
                       | Some old \<Rightarrow> removeChild d old taskId)
             in case newParentId of
                  None \<Rightarrow> Some (None, d1)
                | Some p \<Rightarrow>
                    (case getTaskById d1 p of
                       None \<Rightarrow> Some (Some (ParentNotFound p), d1)
                     | Some newParent \<Rightarrow>
                         (case getTaskDepth n d1 newParent of
                            None \<Rightarrow> None
                          | Some newParentDepth \<Rightarrow>
                              (case getMaxChildDepth n d1 t of
                                 None \<Rightarrow> None
                               | Some taskMaxChildDepth \<Rightarrow>
                                   if newParentDepth + 1 + taskMaxChildDepth > 2
                                   then Some (Some MaxHierarchyUpdate, d1)
                                   else
                                     (case isDescendant n d1 p (task_id t) of
                                        None \<Rightarrow> None
                                      | Some True \<Rightarrow> Some (Some CircularReference, d1)
                                      | Some False \<Rightarrow>
                                          Some (None, pushChild d1 newParent taskId)))))))"

definition updateTask ::
  "nat \<Rightarrow> timestamp \<Rightarrow> store \<Rightarrow> nat \<Rightarrow> updates \<Rightarrow> ((error + task) \<times> store) option" where
  "updateTask n now s taskId u =
     (case getTaskById (tasks s) taskId of
        None \<Rightarrow> Some (Inl (TaskNotFound taskId), s)
      | Some t \<Rightarrow>
          (let previousState = stateOf t
           in case updateTask_reparent n (tasks s) t taskId u of
                None \<Rightarrow> None
              | Some (Some e, d1) \<Rightarrow> Some (Inl e, s\<lparr>tasks := d1\<rparr>)
              | Some (None, d1) \<Rightarrow>
                  (let t1 = applyUpdates t u;
                       t2 = (if status t1 = Completed \<and> priority t1 \<noteq> None
                             then t1\<lparr>priority := None\<rparr> else t1)
                   in case (if status t2 = Completed
                            then completeAllDescendants n d1 (childTaskIds t2)
                            else Some d1) of
                        None \<Rightarrow> None
                      | Some d2 \<Rightarrow>
                          (let d3 = saveTask d2 t2;
                               s3 = recordAction (s\<lparr>tasks := d3\<rparr>)
                                      (ActModify (task_id t2) previousState (stateOf t2) now);
                               d4 = checkAndCompleteParent (tasks s3) t2
                           in Some (Inr t2, s3\<lparr>tasks := d4\<rparr>)))))"

section \<open>deleteTask and restoreTask\<close>

text \<open>
  The branch of \<open>deleteTask\<close> without cascade: every child that exists becomes a root.
\<close>

fun detachChildren :: "db \<Rightarrow> nat list \<Rightarrow> db" where
  "detachChildren d [] = d"
| "detachChildren d (c # cs) =
     (case getTaskById d c of
        None \<Rightarrow> detachChildren d cs
      | Some child \<Rightarrow> detachChildren (saveTask d (child\<lparr>parentTaskId := None\<rparr>)) cs)"

text \<open>
  \<open>deleteTask(taskId, deleteChildren, isRootDelete)\<close>. The record \<open>task\<close> is read once, at
  the start, and that copy is the one saved at the end. \<open>deleteTask_loop\<close> is the loop over
  the children in the cascading branch; its last argument is \<open>deletedTaskIds\<close> so far.
\<close>

fun deleteTask ::
    "nat \<Rightarrow> timestamp \<Rightarrow> store \<Rightarrow> nat \<Rightarrow> bool \<Rightarrow> bool \<Rightarrow> ((error + nat list) \<times> store) option"
  and deleteTask_loop ::
    "nat \<Rightarrow> timestamp \<Rightarrow> store \<Rightarrow> nat list \<Rightarrow> nat list \<Rightarrow> ((error + nat list) \<times> store) option"
  where
  "deleteTask 0 now s taskId deleteChildren isRootDelete = None"
| "deleteTask (Suc n) now s taskId deleteChildren isRootDelete =
     (case getTaskById (tasks s) taskId of
        None \<Rightarrow> Some (Inl (TaskNotFound taskId), s)
      | Some t \<Rightarrow>
          (case (if childTaskIds t \<noteq> [] then
                   (if deleteChildren then deleteTask_loop n now s (childTaskIds t) [taskId]
                    else Some (Inr [taskId], s\<lparr>tasks := detachChildren (tasks s) (childTaskIds t)\<rparr>))
                 else Some (Inr [taskId], s)) of
             None \<Rightarrow> None
           | Some (Inl e, s1) \<Rightarrow> Some (Inl e, s1)
           | Some (Inr deletedTaskIds, s1) \<Rightarrow>
               (let d2 = (case parentTaskId t of
                            None \<Rightarrow> tasks s1
                          | Some p \<Rightarrow> removeChild (tasks s1) p taskId);
                    d3 = saveTask d2 (t\<lparr>deleted := True, deletedAt := Some now\<rparr>);
                    s3 = s1\<lparr>tasks := d3\<rparr>;
                    s4 = (if isRootDelete
                          then recordAction s3 (ActDelete (task_id t) deletedTaskIds now)
                          else s3)
                in Some (Inr deletedTaskIds, s4))))"
| "deleteTask_loop n now s [] acc = Some (Inr acc, s)"
| "deleteTask_loop n now s (c # cs) acc =
     (case deleteTask n now s c True False of
        None \<Rightarrow> None
      | Some (Inl e, s1) \<Rightarrow> Some (Inl e, s1)
      | Some (Inr childDeletedIds, s1) \<Rightarrow> deleteTask_loop n now s1 cs (acc @ childDeletedIds))"

text \<open>
  The re-attachment shared by \<open>restoreTask\<close> and \<open>restoreTaskWithoutHistory\<close>: the parent
  is read after the task has been saved.
\<close>

definition restoreRelationship :: "db \<Rightarrow> task \<Rightarrow> nat \<Rightarrow> db" where
  "restoreRelationship d t taskId =
     (case parentTaskId t of
        None \<Rightarrow> d
      | Some p \<Rightarrow>
          (case getTaskById d p of
             None \<Rightarrow> d
           | Some parent \<Rightarrow>
               if \<not> deleted parent \<and> taskId \<notin> set (childTaskIds parent)
               then saveTask d (parent\<lparr>childTaskIds := childTaskIds parent @ [taskId]\<rparr>)
               else d))"

definition restoreTask :: "timestamp \<Rightarrow> store \<Rightarrow> nat \<Rightarrow> (error + task) \<times> store" where
  "restoreTask now s taskId =
     (case getTaskById (tasks s) taskId of
        None \<Rightarrow> (Inl (TaskNotFound taskId), s)
      | Some t \<Rightarrow>
          if \<not> deleted t then (Inl (TaskNotDeleted taskId), s)
          else
            (let t' = t\<lparr>deleted := False, deletedAt := None\<rparr>;
                 d1 = saveTask (tasks s) t';
                 d2 = restoreRelationship d1 t' taskId
             in (Inr t', recordAction (s\<lparr>tasks := d2\<rparr>) (ActRestore (task_id t') now))))"

definition restoreTaskWithoutHistory :: "db \<Rightarrow> nat \<Rightarrow> task option \<times> db" where
  "restoreTaskWithoutHistory d taskId =
     (case getTaskById d taskId of
        None \<Rightarrow> (None, d)
      | Some t \<Rightarrow>
          if \<not> deleted t then (Some t, d)
          else
            (let t' = t\<lparr>deleted := False, deletedAt := None\<rparr>;
                 d1 = saveTask d t'
             in (Some t', restoreRelationship d1 t' taskId)))"

section \<open>Mutations without history, undo and redo\<close>

definition updateTaskWithoutHistory :: "db \<Rightarrow> nat \<Rightarrow> updates \<Rightarrow> (error + task) \<times> db" where
  "updateTaskWithoutHistory d taskId u =
     (case getTaskById d taskId of
        None \<Rightarrow> (Inl (TaskNotFound taskId), d)
      | Some t \<Rightarrow>
          (let d2 = (case u_parentTaskId u of
                       None \<Rightarrow> d
                     | Some newParentId \<Rightarrow>
                         if newParentId = parentTaskId t then d
                         else
                           (let d1 = (case parentTaskId t of
                                        None \<Rightarrow> d
                                      | Some old \<Rightarrow> removeChild d old taskId)
                            in case newParentId of
                                 None \<Rightarrow> d1
                               | Some p \<Rightarrow>
                                   (case getTaskById d1 p of
                                      None \<Rightarrow> d1
                                    | Some newParent \<Rightarrow> pushChild d1 newParent taskId)));
               t1 = applyUpdates t u
           in (Inr t1, saveTask d2 t1)))"

definition deleteTaskWithoutHistory :: "timestamp \<Rightarrow> db \<Rightarrow> nat \<Rightarrow> task option \<times> db" where
  "deleteTaskWithoutHistory now d taskId =
     (case getTaskById d taskId of
        None \<Rightarrow> (None, d)
      | Some t \<Rightarrow>
          if deleted t then (Some t, d)
          else
            (let d1 = (case parentTaskId t of
                         None \<Rightarrow> d
                       | Some p \<Rightarrow> removeChild d p taskId);
                 t' = t\<lparr>deleted := True, deletedAt := Some now\<rparr>
             in (Some t', saveTask d1 t')))"

text \<open>
  The \<open>create\<close> and \<open>restore\<close> cases of \<open>undo\<close>: the task, when it exists, is removed from
  its parent's children and marked deleted.
\<close>

definition undo_redelete :: "timestamp \<Rightarrow> db \<Rightarrow> nat \<Rightarrow> db" where
  "undo_redelete now d taskId =
     (case getTaskById d taskId of
        None \<Rightarrow> d
      | Some t \<Rightarrow>
          (let d1 = (case parentTaskId t of
                       None \<Rightarrow> d
                     | Some p \<Rightarrow> removeChild d p taskId)
           in saveTask d1 (t\<lparr>deleted := True, deletedAt := Some now\<rparr>)))"

text \<open>
  The body of the \<open>try\<close> block of \<open>undo\<close>, up to the \<open>switch\<close>: the database after it, and
  the error when it throws. The loop of the \<open>delete\<close> case runs from the last id of
  \<open>deletedTaskIds\<close> down to the first.
\<close>

definition undo_switch :: "timestamp \<Rightarrow> db \<Rightarrow> action \<Rightarrow> error option \<times> db" where
  "undo_switch now d a =
     (case a of
        ActDelete taskId deletedTaskIds ts \<Rightarrow>
          (None, fold (\<lambda>i d'. snd (restoreTaskWithoutHistory d' i)) (rev deletedTaskIds) d)
      | ActModify taskId previousState newState ts \<Rightarrow>
          (case updateTaskWithoutHistory d taskId previousState of
             (Inl e, d') \<Rightarrow> (Some e, d')
           | (Inr t, d') \<Rightarrow> (None, d'))
      | ActCreate taskId ts \<Rightarrow> (None, undo_redelete now d taskId)
      | ActRestore taskId ts \<Rightarrow> (None, undo_redelete now d taskId)
      | ActOther ty taskId \<Rightarrow> (Some (UnknownActionType ty), d))"

definition undo :: "timestamp \<Rightarrow> store \<Rightarrow> (error + action) \<times> store" where
  "undo now s =
     (if undoStack s = [] then (Inl NothingToUndo, s)
      else
        (let a = last (undoStack s);
             s1 = s\<lparr>undoStack := butlast (undoStack s)\<rparr>
         in case undo_switch now (tasks s1) a of
              (None, d') \<Rightarrow> (Inr a, s1\<lparr>tasks := d', redoStack := redoStack s1 @ [a]\<rparr>)
            | (Some e, d') \<Rightarrow> (Inl e, s1\<lparr>tasks := d', undoStack := undoStack s1 @ [a]\<rparr>)))"

text \<open>
  The \<open>switch\<close> of \<open>redo\<close>. Its \<open>create\<close> and \<open>restore\<close> cases call \<open>restoreTask\<close>, which
  records an action of its own, so this block works on the whole store.
\<close>

definition redo_switch :: "timestamp \<Rightarrow> store \<Rightarrow> action \<Rightarrow> error option \<times> store" where
  "redo_switch now s a =
     (case a of
        ActDelete taskId deletedTaskIds ts \<Rightarrow>
          (None, s\<lparr>tasks := fold (\<lambda>i d'. snd (deleteTaskWithoutHistory now d' i))
                               deletedTaskIds (tasks s)\<rparr>)
      | ActModify taskId previousState newState ts \<Rightarrow>
          (case updateTaskWithoutHistory (tasks s) taskId newState of
             (Inl e, d') \<Rightarrow> (Some e, s\<lparr>tasks := d'\<rparr>)
           | (Inr t, d') \<Rightarrow> (None, s\<lparr>tasks := d'\<rparr>))
      | ActCreate taskId ts \<Rightarrow>
          (case restoreTask now s taskId of
             (Inl e, s') \<Rightarrow> (Some e, s')
           | (Inr t, s') \<Rightarrow> (None, s'))
      | ActRestore taskId ts \<Rightarrow>
          (case restoreTask now s taskId of
             (Inl e, s') \<Rightarrow> (Some e, s')
           | (Inr t, s') \<Rightarrow> (None, s'))
      | ActOther ty taskId \<Rightarrow> (Some (UnknownActionType ty), s))"

definition redo :: "timestamp \<Rightarrow> store \<Rightarrow> (error + action) \<times> store" where
  "redo now s =
     (if redoStack s = [] then (Inl NothingToRedo, s)
      else
        (let a = last (redoStack s);
             s1 = s\<lparr>redoStack := butlast (redoStack s)\<rparr>
         in case redo_switch now s1 a of
              (None, s2) \<Rightarrow> (Inr a, s2\<lparr>undoStack := undoStack s2 @ [a]\<rparr>)
            | (Some e, s2) \<Rightarrow> (Inl e, s2\<lparr>redoStack := redoStack s2 @ [a]\<rparr>)))"

section \<open>Inputs used in the examples\<close>

definition newTask :: "string \<Rightarrow> nat option \<Rightarrow> taskData" where
  "newTask nm p =
     \<lparr>d_name = Some (js nm), d_dueDate = None, d_status = None, d_project = None,
      d_priority = None, d_notes = None, d_parentTaskId = p\<rparr>"

definition noUpdates :: updates where
  "noUpdates =
     \<lparr>u_name = None, u_dueDate = None, u_status = None, u_project = None,
      u_priority = None, u_notes = None, u_parentTaskId = None\<rparr>"

definition setStatus :: "status \<Rightarrow> updates" where
  "setStatus st = noUpdates\<lparr>u_status := Some st\<rparr>"

definition setParent :: "nat option \<Rightarrow> updates" where
  "setParent p = noUpdates\<lparr>u_parentTaskId := Some p\<rparr>"

text \<open>A store whose only undo action and only redo action name a task that is gone.\<close>

definition staleHistoryStore :: store where
  "staleHistoryStore =
     \<lparr>tasks = [], nextId = Some 8,
      undoStack = [ActModify 7 (setStatus Completed) (setStatus NotStarted) 0],
      redoStack = [ActCreate 7 0]\<rparr>"

section \<open>Example stores\<close>

text \<open>
  Successful calls, chained: each returns the store after the call, and \<open>None\<close> when the
  call throws or does not return within five nested steps. The clock reads \<open>0\<close> throughout.
\<close>

definition created :: "store option \<Rightarrow> taskData \<Rightarrow> store option" where
  "created so td =
     (case so of
        None \<Rightarrow> None
      | Some s \<Rightarrow> (case createTask 5 0 s td of Some (Inr t, s') \<Rightarrow> Some s' | _ \<Rightarrow> None))"

definition updated :: "store option \<Rightarrow> nat \<Rightarrow> updates \<Rightarrow> store option" where
  "updated so k u =
     (case so of
        None \<Rightarrow> None
      | Some s \<Rightarrow> (case updateTask 5 0 s k u of Some (Inr t, s') \<Rightarrow> Some s' | _ \<Rightarrow> None))"

definition deletedWith :: "store option \<Rightarrow> nat \<Rightarrow> bool \<Rightarrow> store option" where
  "deletedWith so k cascade =
     (case so of
        None \<Rightarrow> None
      | Some s \<Rightarrow>
          (case deleteTask 5 0 s k cascade True of Some (Inr ids, s') \<Rightarrow> Some s' | _ \<Rightarrow> None))"

definition restored :: "store option \<Rightarrow> nat \<Rightarrow> store option" where
  "restored so k =
     (case so of
        None \<Rightarrow> None
      | Some s \<Rightarrow> (case restoreTask 0 s k of (Inr t, s') \<Rightarrow> Some s' | _ \<Rightarrow> None))"

definition undone :: "store option \<Rightarrow> store option" where
  "undone so =
     (case so of
        None \<Rightarrow> None
      | Some s \<Rightarrow> (case undo 0 s of (Inr a, s') \<Rightarrow> Some s' | _ \<Rightarrow> None))"

definition redone :: "store option \<Rightarrow> store option" where
  "redone so =
     (case so of
        None \<Rightarrow> None
      | Some s \<Rightarrow> (case redo 0 s of (Inr a, s') \<Rightarrow> Some s' | _ \<Rightarrow> None))"

text \<open>\<open>createTask({name: 'A'})\<close>, a number of times in a row.\<close>

fun createdTimes :: "nat \<Rightarrow> store option \<Rightarrow> store option" where
  "createdTimes 0 so = so"
| "createdTimes (Suc k) so = createdTimes k (created so (newTask ''A'' None))"

text \<open>The lengths of the undo stack and of the redo stack.\<close>

definition historySizes :: "store option \<Rightarrow> (nat \<times> nat) option" where
  "historySizes so = map_option (\<lambda>s. (length (undoStack s), length (redoStack s))) so"

text \<open>What the examples look at in each record: id, parent, children, status, priority, deleted.\<close>

definition rows ::
  "store \<Rightarrow> (nat \<times> nat option \<times> nat list \<times> status \<times> priority option \<times> bool) list" where
  "rows s =
     map (\<lambda>t. (task_id t, parentTaskId t, childTaskIds t, status t, priority t, deleted t))
       (tasks s)"

definition activeIds :: "store \<Rightarrow> nat list" where
  "activeIds s = map task_id (getAllTasks (tasks s) False)"

definition mkTask ::
  "nat \<Rightarrow> string \<Rightarrow> status \<Rightarrow> priority option \<Rightarrow> nat option \<Rightarrow> nat list \<Rightarrow> bool \<Rightarrow> task" where
  "mkTask i nm st pr par kids del =
     \<lparr>task_id = i, name = js nm, dueDate = None, status = st, project = None, priority = pr,
      task_notes = [], parentTaskId = par, childTaskIds = kids, deleted = del,
      deletedAt = (if del then Some 0 else None)\<rparr>"

definition modified :: "task \<Rightarrow> task \<Rightarrow> action" where
  "modified before after = ActModify (task_id after) (stateOf before) (stateOf after) 0"

text \<open>One root task, as \<open>createTask\<close> leaves it in an empty store.\<close>

definition taskA :: task where
  "taskA = mkTask 1 ''A'' NotStarted (Some Medium) None [] False"

definition storeA :: store where
  "storeA = \<lparr>tasks = [taskA], nextId = Some 2, undoStack = [ActCreate 1 0], redoStack = []\<rparr>"

text \<open>The root task completed, then reopened.\<close>

definition storeA_completed :: store where
  "storeA_completed =
     \<lparr>tasks = [taskA\<lparr>status := Completed, priority := None\<rparr>], nextId = Some 2,
      undoStack = [ActCreate 1 0, modified taskA (taskA\<lparr>status := Completed, priority := None\<rparr>)],
      redoStack = []\<rparr>"

definition storeA_reopened :: store where
  "storeA_reopened =
     \<lparr>tasks = [taskA\<lparr>status := InProgress, priority := None\<rparr>], nextId = Some 2,
      undoStack = [ActCreate 1 0, modified taskA (taskA\<lparr>status := Completed, priority := None\<rparr>),
         modified (taskA\<lparr>status := Completed, priority := None\<rparr>)
           (taskA\<lparr>status := InProgress, priority := None\<rparr>)],
      redoStack = []\<rparr>"

text \<open>The root task after \<open>update(1, {parentTaskId: 1})\<close>.\<close>

definition storeA_selfParent :: store where
  "storeA_selfParent =
     \<lparr>tasks = [taskA\<lparr>parentTaskId := Some 1\<rparr>], nextId = Some 2,
      undoStack = [ActCreate 1 0, modified taskA (taskA\<lparr>parentTaskId := Some 1\<rparr>)],
      redoStack = []\<rparr>"

text \<open>A root with one child.\<close>

definition storeAB :: store where
  "storeAB =
     \<lparr>tasks = [mkTask 1 ''A'' NotStarted (Some Medium) None [2] False,
               mkTask 2 ''B'' NotStarted (Some Medium) (Some 1) [] False],
      nextId = Some 3, undoStack = [ActCreate 1 0, ActCreate 2 0], redoStack = []\<rparr>"

text \<open>Root 1, its child 2, and the grandchild 3.\<close>

definition taskC :: task where
  "taskC = mkTask 3 ''C'' NotStarted (Some Medium) (Some 2) [] False"

definition chainStore :: store where
  "chainStore =
     \<lparr>tasks = [mkTask 1 ''A'' NotStarted (Some Medium) None [2] False,
               mkTask 2 ''B'' NotStarted (Some Medium) (Some 1) [3] False,
               taskC],
      nextId = Some 4, undoStack = [ActCreate 1 0, ActCreate 2 0, ActCreate 3 0],
      redoStack = []\<rparr>"

text \<open>The chain after \<open>update(3, {status: 'Completed'})\<close>.\<close>

definition chainStore_leafCompleted :: store where
  "chainStore_leafCompleted =
     \<lparr>tasks = [mkTask 1 ''A'' NotStarted (Some Medium) None [2] False,
               mkTask 2 ''B'' Completed (Some Medium) (Some 1) [3] False,
               taskC\<lparr>status := Completed, priority := None\<rparr>],
      nextId = Some 4,
      undoStack = [ActCreate 1 0, ActCreate 2 0, ActCreate 3 0,
         modified taskC (taskC\<lparr>status := Completed, priority := None\<rparr>)],
      redoStack = []\<rparr>"

text \<open>The chain after \<open>update(1, {status: 'Completed'})\<close>.\<close>

definition chainStore_rootCompleted :: store where
  "chainStore_rootCompleted =
     \<lparr>tasks = [mkTask 1 ''A'' Completed None None [2] False,
               mkTask 2 ''B'' Completed None (Some 1) [3] False,
               mkTask 3 ''C'' Completed None (Some 2) [] False],
      nextId = Some 4,
      undoStack = [ActCreate 1 0, ActCreate 2 0, ActCreate 3 0,
         modified (mkTask 1 ''A'' NotStarted (Some Medium) None [2] False)
           (mkTask 1 ''A'' Completed None None [2] False)],
      redoStack = []\<rparr>"

text \<open>
  The chain after \<open>deleteTask(2, true)\<close> and \<open>restoreTask(2)\<close>: task 2 is active again and
  still lists the deleted task 3 among its children.
\<close>

definition chainStore_childRestored :: store where
  "chainStore_childRestored =
     \<lparr>tasks = [mkTask 1 ''A'' NotStarted (Some Medium) None [2] False,
               mkTask 2 ''B'' NotStarted (Some Medium) (Some 1) [3] False,
               mkTask 3 ''C'' NotStarted (Some Medium) (Some 2) [] True],
      nextId = Some 4,
      undoStack = [ActCreate 1 0, ActCreate 2 0, ActCreate 3 0, ActDelete 2 [2, 3] 0,
         ActRestore 2 0],
      redoStack = []\<rparr>"

text \<open>
  A child that its parent does not list: create A, create B under A, delete B, delete A
  (neither with cascade), restore B, restore A. \<open>restoreTask\<close> puts B back among the
  children of A only if A is not deleted at that moment.
\<close>

definition unlistedChildStore :: "store option" where
  "unlistedChildStore =
     restored (restored (deletedWith (deletedWith
       (created (created (Some emptyStore) (newTask ''A'' None)) (newTask ''B'' (Some 1)))
       2 False) 1 False) 2) 1"

text \<open>
  The same store after \<open>createTask({name: 'C', status: 'Completed', parentTaskId: 1})\<close>:
  task 1 lists task 3 alone, and tasks 2 and 3 both have task 1 as their parent. Then
  after \<open>updateTask(2, {status: 'Completed'})\<close>.
\<close>

definition siblingStore :: store where
  "siblingStore =
     \<lparr>tasks = [mkTask 1 ''A'' NotStarted (Some Medium) None [3] False,
               mkTask 2 ''B'' NotStarted (Some Medium) (Some 1) [] False,
               mkTask 3 ''C'' Completed (Some Medium) (Some 1) [] False],
      nextId = Some 4,
      undoStack = [ActCreate 1 0, ActCreate 2 0, ActDelete 2 [2] 0, ActDelete 1 [1] 0,
         ActRestore 2 0, ActRestore 1 0, ActCreate 3 0],
      redoStack = []\<rparr>"

definition siblingStore_completed :: store where
  "siblingStore_completed =
     \<lparr>tasks = [mkTask 1 ''A'' Completed (Some Medium) None [3] False,
               mkTask 2 ''B'' Completed None (Some 1) [] False,
               mkTask 3 ''C'' Completed (Some Medium) (Some 1) [] False],
      nextId = Some 4,
      undoStack = [ActCreate 1 0, ActCreate 2 0, ActDelete 2 [2] 0, ActDelete 1 [1] 0,
         ActRestore 2 0, ActRestore 1 0, ActCreate 3 0,
         modified (mkTask 2 ''B'' NotStarted (Some Medium) (Some 1) [] False)
           (mkTask 2 ''B'' Completed None (Some 1) [] False)],
      redoStack = []\<rparr>"

section \<open>Notions used in the statements\<close>

text \<open>
  The local copy of the task that \<open>updateTask\<close> saves and returns: the updates applied,
  and the priority removed when the status is \<open>Completed\<close>.
\<close>

definition updatedTask :: "task \<Rightarrow> updates \<Rightarrow> task" where
  "updatedTask t u =
     (let t1 = applyUpdates t u
      in if status t1 = Completed \<and> priority t1 \<noteq> None then t1\<lparr>priority := None\<rparr> else t1)"

text \<open>
  \<open>db_rel R d d'\<close>: the two databases hold the same keys, and the records under each key
  are related by \<open>R\<close>.
\<close>

definition db_rel :: "(task \<Rightarrow> task \<Rightarrow> bool) \<Rightarrow> db \<Rightarrow> db \<Rightarrow> bool" where
  "db_rel R d d' \<longleftrightarrow> (\<forall>k. rel_option R (getTaskById d k) (getTaskById d' k))"

text \<open>What the cascade does to one record: nothing, or complete it and remove its priority.\<close>

definition cascaded :: "task \<Rightarrow> task \<Rightarrow> bool" where
  "cascaded a b \<longleftrightarrow>
     b = a \<or> (status a \<noteq> Completed \<and> b = a\<lparr>status := Completed, priority := None\<rparr>)"

definition db_cascaded :: "db \<Rightarrow> db \<Rightarrow> bool" where
  "db_cascaded = db_rel cascaded"

text \<open>What a change of parent does to one record: only its list of children changes, and
  it loses and gains no child but \<open>k\<close>.\<close>

definition relinked :: "nat \<Rightarrow> task \<Rightarrow> task \<Rightarrow> bool" where
  "relinked k a b \<longleftrightarrow>
     (\<exists>cs. b = a\<lparr>childTaskIds := cs\<rparr> \<and> set (childTaskIds a) - {k} \<subseteq> set cs \<and>
           set cs \<subseteq> insert k (set (childTaskIds a)))"

text \<open>What \<open>checkAndCompleteParent\<close> does to one record: nothing, or complete it.\<close>

definition autoCompleted :: "task \<Rightarrow> task \<Rightarrow> bool" where
  "autoCompleted a b \<longleftrightarrow> b = a \<or> b = a\<lparr>status := Completed\<rparr>"

definition isCompleted :: "db \<Rightarrow> nat \<Rightarrow> bool" where
  "isCompleted d k \<longleftrightarrow> (\<exists>r. getTaskById d k = Some r \<and> status r = Completed)"

text \<open>
  The tasks the cascade from the children \<open>cs\<close> reaches in the database \<open>d\<close>: those at the
  end of a chain of children in which every task exists and is not yet \<open>Completed\<close>.
\<close>

inductive cascadeReach :: "db \<Rightarrow> nat list \<Rightarrow> nat \<Rightarrow> bool" for d :: db and cs :: "nat list" where
  child: "c \<in> set cs \<Longrightarrow> getTaskById d c = Some t \<Longrightarrow> status t \<noteq> Completed \<Longrightarrow>
          cascadeReach d cs c"
| step: "cascadeReach d cs y \<Longrightarrow> getTaskById d y = Some ty \<Longrightarrow> x \<in> set (childTaskIds ty) \<Longrightarrow>
         getTaskById d x = Some tx \<Longrightarrow> status tx \<noteq> Completed \<Longrightarrow> cascadeReach d cs x"

text \<open>
  The state of the database after \<open>completeAllDescendants\<close> on the children \<open>cs\<close>: records
  change as the cascade changes them, every child that exists is \<open>Completed\<close>, and so is
  every existing child of a task the cascade has completed.
\<close>

definition cascade_post :: "db \<Rightarrow> nat list \<Rightarrow> db \<Rightarrow> bool" where
  "cascade_post d cs d' \<longleftrightarrow>
     db_cascaded d d' \<and>
     (\<forall>c \<in> set cs. \<forall>t. getTaskById d c = Some t \<longrightarrow> isCompleted d' c) \<and>
     (\<forall>y ty. getTaskById d y = Some ty \<and> status ty \<noteq> Completed \<and> isCompleted d' y \<longrightarrow>
        (\<forall>x \<in> set (childTaskIds ty). \<forall>tx. getTaskById d x = Some tx \<longrightarrow> isCompleted d' x))"

section \<open>Runs of calls\<close>

text \<open>
  A sequence of \<open>updateTask\<close> calls, each given as task id, updates and clock reading, all
  of which succeed; and a number of \<open>undo\<close> calls, all of which succeed. \<open>recordedBy\<close>
  lists, for the same sequence of \<open>updateTask\<close> calls, the action that each call leaves on
  top of the undo stack.
\<close>

fun updateMany :: "nat \<Rightarrow> store \<Rightarrow> (nat \<times> updates \<times> timestamp) list \<Rightarrow> store option" where
  "updateMany n s [] = Some s"
| "updateMany n s ((k, u, now) # calls) =
     (case updateTask n now s k u of
        Some (Inr t, s') \<Rightarrow> updateMany n s' calls
      | _ \<Rightarrow> None)"

fun recordedBy :: "nat \<Rightarrow> store \<Rightarrow> (nat \<times> updates \<times> timestamp) list \<Rightarrow> action list" where
  "recordedBy n s [] = []"
| "recordedBy n s ((k, u, now) # calls) =
     (case updateTask n now s k u of
        Some (Inr t, s') \<Rightarrow> last (undoStack s') # recordedBy n s' calls
      | _ \<Rightarrow> [])"

fun undoMany :: "nat \<Rightarrow> timestamp \<Rightarrow> store \<Rightarrow> store option" where
  "undoMany 0 now s = Some s"
| "undoMany (Suc m) now s =
     (case undo now s of
        (Inr a, s') \<Rightarrow> undoMany m now s'
      | (Inl e, s') \<Rightarrow> None)"

text \<open>Every action of the list is a modify action on a task that the database holds.\<close>

definition modifiesExisting :: "db \<Rightarrow> action list \<Rightarrow> bool" where
  "modifiesExisting d as \<longleftrightarrow>
     list_all (\<lambda>a. case a of
                  ActModify k before after ts \<Rightarrow> getTaskById d k \<noteq> None
                | _ \<Rightarrow> False) as"

text \<open>
  The store with the single task 1 after 21 calls \<open>updateTask(1, {status: 'In Progress'})\<close>:
  the undo stack holds 20 modify actions.
\<close>

definition storeA_busy :: store where
  "storeA_busy =
     \<lparr>tasks = [taskA\<lparr>status := InProgress\<rparr>], nextId = Some 2,
      undoStack = replicate 20 (modified (taskA\<lparr>status := InProgress\<rparr>)
                                 (taskA\<lparr>status := InProgress\<rparr>)),
      redoStack = []\<rparr>"

section \<open>filterTasks\<close>

text \<open>
  The \<open>filters\<close> object. Each key is absent or holds a value and the \<open>negate\<close> flag; a
  bare value \<open>v\<close> is \<open>(v, False)\<close>. The value of \<open>id\<close> is a number or an array of numbers.
\<close>

datatype idFilter = IdValue nat | IdList "nat list"

record filters =
  f_id :: "(idFilter \<times> bool) option"
  f_project :: "(jsString \<times> bool) option"
  f_priority :: "(jsString \<times> bool) option"
  f_status :: "(jsString \<times> bool) option"

text \<open>The strings that the data model stores for a status and for a priority.\<close>

fun statusName :: "status \<Rightarrow> jsString" where
  "statusName NotStarted = js ''Not Started''"
| "statusName InProgress = js ''In Progress''"
| "statusName Blocked = js ''Blocked''"
| "statusName Completed = js ''Completed''"

fun priorityName :: "priority \<Rightarrow> jsString" where
  "priorityName Low = js ''Low''"
| "priorityName Medium = js ''Medium''"
| "priorityName High = js ''High''"
| "priorityName Critical = js ''Critical''"

text \<open>
  \<open>String.prototype.toLowerCase\<close> belongs to the language, not to the program: the
  functions below take it as their first argument. On a string of ASCII code units it is
  \<open>asciiLowerCase\<close>, which the examples use.
\<close>

definition asciiLowerCase :: "jsString \<Rightarrow> jsString" where
  "asciiLowerCase s = map (\<lambda>c. if 65 \<le> c \<and> c \<le> 90 then c + 32 else c) s"

text \<open>\<open>if (negate ? matches : !matches) return false\<close>.\<close>

definition rejects :: "bool \<Rightarrow> bool \<Rightarrow> bool" where
  "rejects negate matches = (if negate then matches else \<not> matches)"

text \<open>
  The callback of \<open>allTasks.filter\<close>. A \<open>null\<close> or empty project is falsy, and so is a
  \<open>null\<close> priority: then \<open>matches\<close> is falsy whatever the filter value.
\<close>

definition matchesFilters :: "(jsString \<Rightarrow> jsString) \<Rightarrow> filters \<Rightarrow> task \<Rightarrow> bool" where
  "matchesFilters toLowerCase f t =
     (if (case f_id f of
            None \<Rightarrow> False
          | Some (filterValue, negate) \<Rightarrow>
              rejects negate
                (case filterValue of
                   IdList ids \<Rightarrow> task_id t \<in> set ids
                 | IdValue i \<Rightarrow> task_id t = i)) then False
      else if (case f_project f of
                 None \<Rightarrow> False
               | Some (filterValue, negate) \<Rightarrow>
                   rejects negate
                     (case project t of
                        None \<Rightarrow> False
                      | Some p \<Rightarrow> p \<noteq> [] \<and> toLowerCase p = toLowerCase filterValue)) then False
      else if (case f_priority f of
                 None \<Rightarrow> False
               | Some (filterValue, negate) \<Rightarrow>
                   rejects negate
                     (case priority t of
                        None \<Rightarrow> False
                      | Some p \<Rightarrow> toLowerCase (priorityName p) = toLowerCase filterValue)) then False
      else if (case f_status f of
                 None \<Rightarrow> False
               | Some (filterValue, negate) \<Rightarrow>
                   rejects negate
                     (toLowerCase (statusName (status t)) = toLowerCase filterValue)) then False
      else True)"

text \<open>\<open>additionalTasks.add(id)\<close> on a \<open>Set\<close>, kept in insertion order.\<close>

definition addId :: "nat \<Rightarrow> nat list \<Rightarrow> nat list" where
  "addId x xs = (if x \<in> set xs then xs else xs @ [x])"

text \<open>The \<open>while\<close> loop over the ancestors of one matched task.\<close>

fun addAncestors :: "nat \<Rightarrow> task list \<Rightarrow> nat list \<Rightarrow> task \<Rightarrow> nat list \<Rightarrow> nat list option" where
  "addAncestors 0 allTasks resultIds current additionalTasks = None"
| "addAncestors (Suc n) allTasks resultIds current additionalTasks =
     (case parentTaskId current of
        None \<Rightarrow> Some additionalTasks
      | Some p \<Rightarrow>
          (let additionalTasks' =
                 (if p \<notin> set resultIds then addId p additionalTasks else additionalTasks)
           in case getTaskById allTasks p of
                None \<Rightarrow> Some additionalTasks'
              | Some current' \<Rightarrow> addAncestors n allTasks resultIds current' additionalTasks'))"

text \<open>The local function \<open>addDescendants\<close>, as the loop over the children of its argument.\<close>

fun addDescendants ::
  "nat \<Rightarrow> task list \<Rightarrow> nat list \<Rightarrow> nat list \<Rightarrow> nat list \<Rightarrow> nat list option" where
  "addDescendants n allTasks resultIds [] additionalTasks = Some additionalTasks"
| "addDescendants n allTasks resultIds (childId # childIds) additionalTasks =
     (let additionalTasks' =
            (if childId \<notin> set resultIds then addId childId additionalTasks
             else additionalTasks)
      in case getTaskById allTasks childId of
           None \<Rightarrow> addDescendants n allTasks resultIds childIds additionalTasks'
         | Some child \<Rightarrow>
             (case n of
                0 \<Rightarrow> None
              | Suc m \<Rightarrow>
                  (case addDescendants m allTasks resultIds (childTaskIds child) additionalTasks' of
                     None \<Rightarrow> None
                   | Some additionalTasks'' \<Rightarrow>
                       addDescendants n allTasks resultIds childIds additionalTasks'')))"

text \<open>The loop \<open>for (const task of matchedTasks)\<close>.\<close>

fun addFamilies :: "nat \<Rightarrow> task list \<Rightarrow> nat list \<Rightarrow> task list \<Rightarrow> nat list \<Rightarrow> nat list option" where
  "addFamilies n allTasks resultIds [] additionalTasks = Some additionalTasks"
| "addFamilies n allTasks resultIds (t # matchedTasks) additionalTasks =
     (case addAncestors n allTasks resultIds t additionalTasks of
        None \<Rightarrow> None
      | Some a1 \<Rightarrow>
          (case addDescendants n allTasks resultIds (childTaskIds t) a1 of
             None \<Rightarrow> None
           | Some a2 \<Rightarrow> addFamilies n allTasks resultIds matchedTasks a2))"

text \<open>
  \<open>getTaskDepthSync\<close> has the body of \<open>getTaskDepth\<close>, with \<open>allTasks.find\<close> in the place
  of \<open>getTaskById\<close>.
\<close>

definition getTaskDepthSync :: "nat \<Rightarrow> task \<Rightarrow> task list \<Rightarrow> nat option" where
  "getTaskDepthSync n t allTasks = getTaskDepth_loop n allTasks 0 t"

text \<open>
  The final \<open>sort\<close>. The comparator orders by depth, then by id; the depth of each task is
  computed once here, and the sort is an insertion sort with that comparator.
\<close>

fun withDepths :: "nat \<Rightarrow> task list \<Rightarrow> task list \<Rightarrow> (nat \<times> task) list option" where
  "withDepths n allTasks [] = Some []"
| "withDepths n allTasks (t # ts) =
     (case getTaskDepthSync n t allTasks of
        None \<Rightarrow> None
      | Some depth \<Rightarrow>
          (case withDepths n allTasks ts of
             None \<Rightarrow> None
           | Some rest \<Rightarrow> Some ((depth, t) # rest)))"

definition compareTasks :: "nat \<times> task \<Rightarrow> nat \<times> task \<Rightarrow> int" where
  "compareTasks a b =
     (if fst a \<noteq> fst b then int (fst a) - int (fst b)
      else int (task_id (snd a)) - int (task_id (snd b)))"

fun insertTask :: "nat \<times> task \<Rightarrow> (nat \<times> task) list \<Rightarrow> (nat \<times> task) list" where
  "insertTask x [] = [x]"
| "insertTask x (y # ys) =
     (if compareTasks x y \<le> 0 then x # y # ys else y # insertTask x ys)"

definition sortTasks :: "(nat \<times> task) list \<Rightarrow> (nat \<times> task) list" where
  "sortTasks xs = foldr insertTask xs []"

definition filterTasks ::
  "(jsString \<Rightarrow> jsString) \<Rightarrow> nat \<Rightarrow> db \<Rightarrow> filters \<Rightarrow> task list option" where
  "filterTasks toLowerCase n d f =
     (let allTasks = getAllTasks d False;
          matchedTasks = filter (matchesFilters toLowerCase f) allTasks;
          resultIds = map task_id matchedTasks
      in case addFamilies n allTasks resultIds matchedTasks [] of
           None \<Rightarrow> None
         | Some additionalTasks \<Rightarrow>
             (let finalTasks = matchedTasks @ List.map_filter (getTaskById allTasks) additionalTasks
              in case withDepths n allTasks finalTasks of
                   None \<Rightarrow> None
                 | Some keyed \<Rightarrow> Some (map snd (sortTasks keyed))))"

section \<open>Notions used in the statement about filterTasks\<close>

text \<open>
  Within a list of tasks: \<open>ancestorIn\<close>, the tasks met when following \<open>parentTaskId\<close> from a
  task upwards; \<open>descendantIn\<close>, the tasks met when following \<open>childTaskIds\<close> downwards from
  a list of child ids. In both, a link to an id that the list does not hold ends the walk.
\<close>

inductive ancestorIn :: "task list \<Rightarrow> task \<Rightarrow> task \<Rightarrow> bool"
  for allTasks :: "task list" and t :: task where
  parent: "parentTaskId t = Some p \<Longrightarrow> getTaskById allTasks p = Some a \<Longrightarrow>
           ancestorIn allTasks t a"
| above: "ancestorIn allTasks t b \<Longrightarrow> parentTaskId b = Some p \<Longrightarrow>
          getTaskById allTasks p = Some a \<Longrightarrow> ancestorIn allTasks t a"

inductive descendantIn :: "task list \<Rightarrow> nat list \<Rightarrow> task \<Rightarrow> bool"
  for allTasks :: "task list" and cs :: "nat list" where
  child: "c \<in> set cs \<Longrightarrow> getTaskById allTasks c = Some x \<Longrightarrow> descendantIn allTasks cs x"
| below: "descendantIn allTasks cs y \<Longrightarrow> c \<in> set (childTaskIds y) \<Longrightarrow>
          getTaskById allTasks c = Some x \<Longrightarrow> descendantIn allTasks cs x"

text \<open>
  The ids that the two walks add: the parent ids met on the way up from a task, and the
  child ids met on the way down from a list of child ids, whether the list of tasks holds
  them or not.
\<close>

definition parentIds :: "task list \<Rightarrow> task \<Rightarrow> nat set" where
  "parentIds allTasks t =
     {p. parentTaskId t = Some p} \<union> {p. \<exists>b. ancestorIn allTasks t b \<and> parentTaskId b = Some p}"

definition childIdsBelow :: "task list \<Rightarrow> nat list \<Rightarrow> nat set" where
  "childIdsBelow allTasks cs =
     set cs \<union> {c. \<exists>y. descendantIn allTasks cs y \<and> c \<in> set (childTaskIds y)}"

text \<open>
  What a set of predicates asks of a task, field by field: the id equals the given number,
  or is one of the given numbers; the project is present, not empty and equal to the given
  string up to letter case; the priority is present and its name equal to the given string
  up to letter case; the name of the status is equal to the given string up to letter
  case. A predicate with the \<open>negate\<close> flag asks for the opposite. A task satisfies the set
  when it satisfies every predicate in it.
\<close>

definition idTest :: "idFilter \<Rightarrow> task \<Rightarrow> bool" where
  "idTest v t = (case v of IdValue i \<Rightarrow> task_id t = i | IdList ids \<Rightarrow> task_id t \<in> set ids)"

definition projectTest :: "(jsString \<Rightarrow> jsString) \<Rightarrow> jsString \<Rightarrow> task \<Rightarrow> bool" where
  "projectTest lower v t \<longleftrightarrow> (\<exists>p. project t = Some p \<and> p \<noteq> [] \<and> lower p = lower v)"

definition priorityTest :: "(jsString \<Rightarrow> jsString) \<Rightarrow> jsString \<Rightarrow> task \<Rightarrow> bool" where
  "priorityTest lower v t \<longleftrightarrow> (\<exists>p. priority t = Some p \<and> lower (priorityName p) = lower v)"

definition statusTest :: "(jsString \<Rightarrow> jsString) \<Rightarrow> jsString \<Rightarrow> task \<Rightarrow> bool" where
  "statusTest lower v t \<longleftrightarrow> lower (statusName (status t)) = lower v"

definition satisfies :: "(jsString \<Rightarrow> jsString) \<Rightarrow> filters \<Rightarrow> task \<Rightarrow> bool" where
  "satisfies lower f t \<longleftrightarrow>
     (\<forall>v negate. f_id f = Some (v, negate) \<longrightarrow> idTest v t \<noteq> negate) \<and>
     (\<forall>v negate. f_project f = Some (v, negate) \<longrightarrow> projectTest lower v t \<noteq> negate) \<and>
     (\<forall>v negate. f_priority f = Some (v, negate) \<longrightarrow> priorityTest lower v t \<noteq> negate) \<and>
     (\<forall>v negate. f_status f = Some (v, negate) \<longrightarrow> statusTest lower v t \<noteq> negate)"

text \<open>The family closure of the tasks that satisfy the predicates.\<close>

definition family :: "(jsString \<Rightarrow> jsString) \<Rightarrow> task list \<Rightarrow> filters \<Rightarrow> task set" where
  "family lower allTasks f =
     {t. \<exists>m \<in> set allTasks. satisfies lower f m \<and>
           (t = m \<or> ancestorIn allTasks m t \<or> descendantIn allTasks (childTaskIds m) t)}"

text \<open>
  The depth of a task within a list of tasks: 0 for a task without parent; one more than
  the depth of its parent when the list holds the parent; 1 when the task names a parent
  that the list does not hold.
\<close>

inductive depthIn :: "task list \<Rightarrow> task \<Rightarrow> nat \<Rightarrow> bool" for allTasks :: "task list" where
  root: "parentTaskId t = None \<Longrightarrow> depthIn allTasks t 0"
| orphan: "parentTaskId t = Some p \<Longrightarrow> getTaskById allTasks p = None \<Longrightarrow> depthIn allTasks t 1"
| deeper: "parentTaskId t = Some p \<Longrightarrow> getTaskById allTasks p = Some a \<Longrightarrow>
           depthIn allTasks a k \<Longrightarrow> depthIn allTasks t (Suc k)"

text \<open>
  \<open>heightWithin allTasks cs h\<close>: below the child ids \<open>cs\<close> the trees of children that the
  list holds are at most \<open>h\<close> levels deep.
\<close>

inductive heightWithin :: "task list \<Rightarrow> nat list \<Rightarrow> nat \<Rightarrow> bool" for allTasks :: "task list" where
  none: "heightWithin allTasks [] h"
| missing: "getTaskById allTasks c = None \<Longrightarrow> heightWithin allTasks cs h \<Longrightarrow>
            heightWithin allTasks (c # cs) h"
| found: "getTaskById allTasks c = Some ch \<Longrightarrow> heightWithin allTasks (childTaskIds ch) h \<Longrightarrow>
          heightWithin allTasks cs (Suc h) \<Longrightarrow> heightWithin allTasks (c # cs) (Suc h)"

text \<open>The order of the result: ascending depth, and ascending id among equal depths.\<close>

definition sortsBefore :: "task list \<Rightarrow> task \<Rightarrow> task \<Rightarrow> bool" where
  "sortsBefore allTasks a b \<longleftrightarrow>
     (\<exists>da db. depthIn allTasks a da \<and> depthIn allTasks b db \<and>
        (da < db \<or> (da = db \<and> task_id a < task_id b)))"

text \<open>
  The reading of the predicates that the specification gives: a plain equality test, or its
  negation, on each field.
\<close>

definition matchesAsStated :: "filters \<Rightarrow> task \<Rightarrow> bool" where
  "matchesAsStated f t =
     ((case f_id f of
         None \<Rightarrow> True
       | Some (IdValue i, negate) \<Rightarrow> (task_id t = i) \<noteq> negate
       | Some (IdList ids, negate) \<Rightarrow> (task_id t \<in> set ids) \<noteq> negate) \<and>
      (case f_project f of
         None \<Rightarrow> True
       | Some (v, negate) \<Rightarrow> (project t = Some v) \<noteq> negate) \<and>
      (case f_priority f of
         None \<Rightarrow> True
       | Some (v, negate) \<Rightarrow> (map_option priorityName (priority t) = Some v) \<noteq> negate) \<and>
      (case f_status f of
         None \<Rightarrow> True
       | Some (v, negate) \<Rightarrow> (statusName (status t) = v) \<noteq> negate))"

section \<open>Examples for filterTasks\<close>

definition noFilters :: filters where
  "noFilters = \<lparr>f_id = None, f_project = None, f_priority = None, f_status = None\<rparr>"

definition projectFilter :: "string \<Rightarrow> filters" where
  "projectFilter v = noFilters\<lparr>f_project := Some (js v, False)\<rparr>"

definition idFilterOf :: "nat list \<Rightarrow> filters" where
  "idFilterOf ids = noFilters\<lparr>f_id := Some (IdList ids, False)\<rparr>"

text \<open>The chain 1, 2, 3 in which only the grandchild has the project \<open>X\<close>.\<close>

definition projectChain :: db where
  "projectChain =
     [mkTask 1 ''A'' NotStarted (Some Medium) None [2] False,
      mkTask 2 ''B'' NotStarted (Some Medium) (Some 1) [3] False,
      taskC\<lparr>project := Some (js ''X'')\<rparr>]"

text \<open>A single root task with the project \<open>X\<close>.\<close>

definition projectRoot :: db where
  "projectRoot = [taskA\<lparr>project := Some (js ''X'')\<rparr>]"

text \<open>
  The chain 1, 2, 3 with a second child 4 of the root, after \<open>deleteTask(2, true)\<close> and
  \<open>restoreTask(3)\<close>: task 3 is active, its parent 2 is deleted, and the root is active.
\<close>

definition orphanChain :: db where
  "orphanChain =
     [mkTask 1 ''A'' NotStarted (Some Medium) None [4] False,
      mkTask 2 ''B'' NotStarted (Some Medium) (Some 1) [3] True,
      mkTask 3 ''C'' NotStarted (Some Medium) (Some 2) [] False,
      mkTask 4 ''D'' NotStarted (Some Medium) (Some 1) [] False]"

text \<open>
  Three tasks after \<open>updateTask(1, {parentTaskId: 3})\<close> and
  \<open>updateTask(2, {status: 'Completed'})\<close>: task 1 is the child of task 3.
\<close>

definition mixedTasks :: db where
  "mixedTasks =
     [mkTask 1 ''A'' NotStarted (Some Medium) (Some 3) [] False,
      mkTask 2 ''B'' Completed None None [] False,
      mkTask 3 ''C'' NotStarted (Some Medium) None [1] False]"

definition mixedFilter :: filters where
  "mixedFilter =
     \<lparr>f_id = Some (IdList [1, 2], False), f_project = None,
      f_priority = Some (js ''medium'', False), f_status = Some (js ''completed'', True)\<rparr>"

section \<open>Reading back what was written\<close>

lemma getTaskById_id: "getTaskById d k = Some t \<Longrightarrow> task_id t = k"
  by (auto simp: getTaskById_def find_Some_iff)

lemma getTaskById_saveTask:
  "getTaskById (saveTask d t) k = (if k = task_id t then Some t else getTaskById d k)"
  by (induction d) (auto simp: getTaskById_def)

lemma task_id_applyUpdates [simp]: "task_id (applyUpdates t u) = task_id t"
  by (simp add: applyUpdates_def)

lemma childTaskIds_applyUpdates [simp]: "childTaskIds (applyUpdates t u) = childTaskIds t"
  by (simp add: applyUpdates_def)

lemma checkAndCompleteParent_self:
  assumes "getTaskById d (task_id t) = Some t"
  shows "getTaskById (checkAndCompleteParent d t) (task_id t) = Some t"
proof (cases "status t \<noteq> Completed \<or> parentTaskId t = None \<or> parentTaskId t = Some 0")
  case True
  then show ?thesis using assms by (auto simp: checkAndCompleteParent_def)
next
  case False
  then obtain p where p: "parentTaskId t = Some p" and st: "status t = Completed" by auto
  show ?thesis
  proof (cases "getTaskById d p")
    case None
    then show ?thesis using assms p st False by (simp add: checkAndCompleteParent_def)
  next
    case (Some parent)
    have pid: "task_id parent = p" using getTaskById_id[OF Some] .
    show ?thesis
    proof (cases "p = task_id t")
      case True
      then have "parent = t" using Some assms by simp
      then show ?thesis using assms p st Some True by (auto simp: checkAndCompleteParent_def)
    next
      case neq: False
      then show ?thesis using assms p st Some pid False
        by (auto simp: checkAndCompleteParent_def getTaskById_saveTask)
    qed
  qed
qed

lemma updateTask_success:
  assumes "updateTask n now s k u = Some (Inr t', s')"
  shows "\<exists>t d1 d2. getTaskById (tasks s) k = Some t \<and> t' = updatedTask t u
            \<and> updateTask_reparent n (tasks s) t k u = Some (None, d1)
            \<and> (if status t' = Completed then completeAllDescendants n d1 (childTaskIds t') else Some d1) = Some d2
            \<and> tasks s' = checkAndCompleteParent (saveTask d2 t') t'"
  using assms
  by (auto simp: updateTask_def updatedTask_def Let_def recordAction_def split: option.splits prod.splits if_splits)

lemma updateTask_stored:
  assumes "updateTask n now s k u = Some (Inr t', s')"
  shows "getTaskById (tasks s') k = Some t'"
proof -
  from updateTask_success[OF assms] obtain t d1 d2 where
    t: "getTaskById (tasks s) k = Some t" and t': "t' = updatedTask t u"
    and s': "tasks s' = checkAndCompleteParent (saveTask d2 t') t'" by blast
  have id: "task_id t' = k" using getTaskById_id[OF t] t' by (simp add: updatedTask_def Let_def)
  have "getTaskById (saveTask d2 t') (task_id t') = Some t'" by (simp add: getTaskById_saveTask)
  from checkAndCompleteParent_self[OF this] show ?thesis using s' id by simp
qed

lemma halved_div: "halved k n = n div 2 ^ k"
proof (induction k arbitrary: n)
  case 0
  then show ?case by simp
next
  case (Suc k)
  then show ?case by (simp add: div_mult2_eq)
qed

lemma below_iff: "below k n \<longleftrightarrow> n < 2 ^ k"
  by (simp add: below_def halved_div div_eq_0_iff)

text \<open>The id counter: it advances by one below \<open>2^53\<close>, and stands still at \<open>2^53\<close>.\<close>

lemma plusOne_exact: "n < 2 ^ 53 \<Longrightarrow> plusOne n = n + 1"
  by (simp add: plusOne_def below_iff)

lemma plusOne_stuck: "plusOne (2 ^ 53) = 2 ^ 53"
  by (simp add: plusOne_def below_iff)

section \<open>Records changed by the cascades and by a change of parent\<close>

lemma db_rel_refl: "(\<And>a. R a a) \<Longrightarrow> db_rel R d d"
  by (simp add: db_rel_def option.rel_refl)

lemma db_rel_trans:
  assumes "\<And>a b c. R a b \<Longrightarrow> R b c \<Longrightarrow> R a c" and "db_rel R d d1" and "db_rel R d1 d2"
  shows "db_rel R d d2"
  unfolding db_rel_def
proof
  fix k
  from assms(2,3) have "rel_option R (getTaskById d k) (getTaskById d1 k)"
    "rel_option R (getTaskById d1 k) (getTaskById d2 k)" by (auto simp: db_rel_def)
  then show "rel_option R (getTaskById d k) (getTaskById d2 k)"
    by (cases "getTaskById d k"; cases "getTaskById d1 k"; cases "getTaskById d2 k")
       (auto intro: assms(1))
qed

lemma db_rel_save:
  assumes "getTaskById d c = Some a" and "R a b" and "task_id b = c" and "\<And>x. R x x"
  shows "db_rel R d (saveTask d b)"
  using assms by (auto simp: db_rel_def getTaskById_saveTask option.rel_refl)

lemma db_rel_Some:
  assumes "db_rel R d d'" "getTaskById d k = Some a"
  shows "\<exists>b. getTaskById d' k = Some b \<and> R a b"
proof -
  from assms(1) have "rel_option R (getTaskById d k) (getTaskById d' k)"
    by (simp add: db_rel_def)
  then show ?thesis using assms(2) by (cases "getTaskById d' k") auto
qed

lemma db_rel_None:
  assumes "db_rel R d d'" "getTaskById d k = None"
  shows "getTaskById d' k = None"
proof -
  from assms(1) have "rel_option R (getTaskById d k) (getTaskById d' k)"
    by (simp add: db_rel_def)
  then show ?thesis using assms(2) by (cases "getTaskById d' k") auto
qed

lemma cascaded_refl: "cascaded a a" by (simp add: cascaded_def)

lemma cascaded_trans: "cascaded a b \<Longrightarrow> cascaded b c \<Longrightarrow> cascaded a c"
  by (auto simp: cascaded_def)

lemma db_cascaded_refl: "db_cascaded d d"
  by (simp add: db_cascaded_def db_rel_refl cascaded_refl)

lemma db_cascaded_trans: "db_cascaded d d1 \<Longrightarrow> db_cascaded d1 d2 \<Longrightarrow> db_cascaded d d2"
  unfolding db_cascaded_def using db_rel_trans[of cascaded] cascaded_trans by blast

lemma db_cascaded_save:
  assumes "getTaskById d c = Some child" "status child \<noteq> Completed"
  shows "db_cascaded d (saveTask d (child\<lparr>status := Completed, priority := None\<rparr>))"
  unfolding db_cascaded_def
  using assms getTaskById_id[OF assms(1)]
  by (intro db_rel_save[where a = child]) (auto simp: cascaded_def)

lemma db_cascaded_Some:
  assumes "db_cascaded d d'" "getTaskById d k = Some a"
  shows "\<exists>b. getTaskById d' k = Some b \<and> cascaded a b"
  using assms db_rel_Some unfolding db_cascaded_def by blast

lemma db_cascaded_Completed:
  assumes "db_cascaded d d'" "getTaskById d k = Some a" "status a = Completed"
  shows "getTaskById d' k = Some a"
  using db_cascaded_Some[OF assms(1,2)] assms(3) by (auto simp: cascaded_def)

lemma isCompleted_mono: "db_cascaded d d' \<Longrightarrow> isCompleted d k \<Longrightarrow> isCompleted d' k"
  unfolding isCompleted_def using db_cascaded_Completed by blast

lemma db_cascaded_exists:
  "db_cascaded d d' \<Longrightarrow> getTaskById d k = Some a \<Longrightarrow> \<exists>b. getTaskById d' k = Some b"
  using db_cascaded_Some by blast

lemma db_cascaded_not_completed:
  assumes "db_cascaded d d'" "getTaskById d k = Some a" "\<not> isCompleted d' k"
  shows "getTaskById d' k = Some a"
  using db_cascaded_Some[OF assms(1,2)] assms(3)
  by (auto simp: cascaded_def isCompleted_def)

lemma cascade_post_Nil: "cascade_post d [] d"
  by (auto simp: cascade_post_def db_cascaded_refl isCompleted_def)

lemma cascade_post_skip:
  assumes "cascade_post d cs d'"
      and "getTaskById d c = None \<or> isCompleted d c"
  shows "cascade_post d (c # cs) d'"
  using assms isCompleted_mono[of d d' c] by (auto simp: cascade_post_def)

lemma cascade_post_visit:
  assumes c: "getTaskById d c = Some child" and nc: "status child \<noteq> Completed"
      and inner: "cascade_post (saveTask d (child\<lparr>status := Completed, priority := None\<rparr>))
                    (childTaskIds child) d1"
      and outer: "cascade_post d1 cs d'"
  shows "cascade_post d (c # cs) d'"
proof -
  let ?d0 = "saveTask d (child\<lparr>status := Completed, priority := None\<rparr>)"
  have cid: "task_id child = c" using getTaskById_id[OF c] .
  have r0: "db_cascaded d ?d0" using db_cascaded_save[OF c nc] .
  have r1: "db_cascaded ?d0 d1" using inner by (simp add: cascade_post_def)
  have r2: "db_cascaded d1 d'" using outer by (simp add: cascade_post_def)
  have r01: "db_cascaded d d1" using db_cascaded_trans[OF r0 r1] .
  have r: "db_cascaded d d'" using db_cascaded_trans[OF r01 r2] .
  have c0: "isCompleted ?d0 c" using cid by (simp add: isCompleted_def getTaskById_saveTask)
  have cdone: "isCompleted d' c"
    using isCompleted_mono[OF r2 isCompleted_mono[OF r1 c0]] .
  have kids: "isCompleted d' k" if k: "k \<in> set (c # cs)" "getTaskById d k = Some t" for k t
  proof (cases "k = c")
    case True then show ?thesis using cdone by simp
  next
    case False
    then have "k \<in> set cs" using k by simp
    moreover obtain b where "getTaskById d1 k = Some b"
      using db_cascaded_exists[OF r01 k(2)] by blast
    ultimately show ?thesis using outer by (auto simp: cascade_post_def)
  qed
  have clos: "isCompleted d' x"
    if y: "getTaskById d y = Some ty" "status ty \<noteq> Completed" "isCompleted d' y"
      and x: "x \<in> set (childTaskIds ty)" "getTaskById d x = Some tx" for y ty x tx
  proof -
    obtain x0 where x0: "getTaskById ?d0 x = Some x0" using db_cascaded_exists[OF r0 x(2)] by blast
    obtain x1 where x1: "getTaskById d1 x = Some x1" using db_cascaded_exists[OF r01 x(2)] by blast
    show ?thesis
    proof (cases "y = c")
      case True
      then have "ty = child" using y(1) c by simp
      then have "x \<in> set (childTaskIds child)" using x(1) by simp
      then have "isCompleted d1 x" using inner x0 by (auto simp: cascade_post_def)
      then show ?thesis using isCompleted_mono[OF r2] by blast
    next
      case False
      then have y0: "getTaskById ?d0 y = Some ty" using y(1) cid by (simp add: getTaskById_saveTask)
      show ?thesis
      proof (cases "isCompleted d1 y")
        case True
        then have "isCompleted d1 x" using inner y0 y(2) x(1) x0 by (auto simp: cascade_post_def)
        then show ?thesis using isCompleted_mono[OF r2] by blast
      next
        case False
        then have "getTaskById d1 y = Some ty" using db_cascaded_not_completed[OF r1 y0] by blast
        then show ?thesis using outer y(2,3) x(1) x1 by (auto simp: cascade_post_def)
      qed
    qed
  qed
  show ?thesis unfolding cascade_post_def using r kids clos by blast
qed

lemma completeAllDescendants_post:
  "completeAllDescendants n d cs = Some d' \<Longrightarrow> cascade_post d cs d'"
proof (induction n d cs arbitrary: d' rule: completeAllDescendants.induct)
  case (1 n d)
  then show ?case by (simp add: cascade_post_Nil)
next
  case (2 n d c cs)
  note IH = "2.IH" and run = "2.prems"
  show ?case
  proof (cases "getTaskById d c")
    case None
    then show ?thesis using IH(1) run cascade_post_skip by simp
  next
    case (Some child)
    show ?thesis
    proof (cases "status child = Completed")
      case True
      then have "isCompleted d c" using Some by (simp add: isCompleted_def)
      moreover have "cascade_post d cs d'" using IH(4)[OF Some] True run Some by simp
      ultimately show ?thesis using cascade_post_skip by blast
    next
      case False
      then obtain m where n: "n = Suc m" using run Some by (cases n) auto
      let ?child' = "child\<lparr>status := Completed, priority := None\<rparr>"
      from run Some False n obtain d1 where
        d1: "completeAllDescendants m (saveTask d ?child') (childTaskIds ?child') = Some d1"
        and d': "completeAllDescendants n d1 cs = Some d'"
        by (auto simp: Let_def split: option.splits)
      have a: "cascade_post (saveTask d ?child') (childTaskIds ?child') d1"
        using IH(2)[OF Some False n refl d1] .
      have b: "cascade_post d1 cs d'"
        using IH(3)[OF Some False n refl d1 d'] .
      show ?thesis using cascade_post_visit[OF Some False _ b] a by simp
    qed
  qed
qed

lemma cascadeReach_completed:
  assumes post: "cascade_post d cs d'" and reach: "cascadeReach d cs x"
  shows "\<exists>a. getTaskById d x = Some a \<and> status a \<noteq> Completed \<and>
             getTaskById d' x = Some (a\<lparr>status := Completed, priority := None\<rparr>)"
  using reach
proof (induction rule: cascadeReach.induct)
  case (child c t)
  then have "isCompleted d' c" using post by (auto simp: cascade_post_def)
  moreover obtain b where "getTaskById d' c = Some b" "cascaded t b"
    using db_cascaded_Some[of d d' c t] post child by (auto simp: cascade_post_def)
  ultimately show ?case using child by (auto simp: isCompleted_def cascaded_def)
next
  case (step y ty x tx)
  then have "isCompleted d' y" by (auto simp: isCompleted_def)
  then have "isCompleted d' x" using post step by (auto simp: cascade_post_def)
  moreover obtain b where "getTaskById d' x = Some b" "cascaded tx b"
    using db_cascaded_Some[of d d' x tx] post step by (auto simp: cascade_post_def)
  ultimately show ?case using step by (auto simp: isCompleted_def cascaded_def)
qed

lemma relinked_refl: "relinked k a a"
  unfolding relinked_def by (rule exI[of _ "childTaskIds a"]) auto

lemma relinked_trans: "relinked k a b \<Longrightarrow> relinked k b c \<Longrightarrow> relinked k a c"
  unfolding relinked_def by (elim exE conjE, rule_tac x = csa in exI) auto

lemma removeChild_relinked: "db_rel (relinked k) d (removeChild d old k)"
proof (cases "getTaskById d old")
  case None
  then show ?thesis by (simp add: removeChild_def db_rel_refl relinked_refl)
next
  case (Some parent)
  have "relinked k parent (parent\<lparr>childTaskIds := filter (\<lambda>i. i \<noteq> k) (childTaskIds parent)\<rparr>)"
    unfolding relinked_def by (rule exI[of _ "filter (\<lambda>i. i \<noteq> k) (childTaskIds parent)"]) auto
  then show ?thesis
    using Some getTaskById_id[OF Some]
    by (auto simp: removeChild_def intro!: db_rel_save[where a = parent] relinked_refl)
qed

lemma pushChild_relinked:
  assumes "getTaskById d p = Some newParent"
  shows "db_rel (relinked k) d (pushChild d newParent k)"
proof (cases "k \<in> set (childTaskIds newParent)")
  case True
  then show ?thesis by (simp add: pushChild_def db_rel_refl relinked_refl)
next
  case False
  have "relinked k newParent (newParent\<lparr>childTaskIds := childTaskIds newParent @ [k]\<rparr>)"
    unfolding relinked_def by (rule exI[of _ "childTaskIds newParent @ [k]"]) auto
  then show ?thesis
    using assms getTaskById_id[OF assms] False
    by (auto simp: pushChild_def intro!: db_rel_save[where a = newParent] relinked_refl)
qed

lemma db_relinked_trans:
  "db_rel (relinked k) d d1 \<Longrightarrow> db_rel (relinked k) d1 d2 \<Longrightarrow> db_rel (relinked k) d d2"
  using db_rel_trans[of "relinked k"] relinked_trans by blast

lemma updateTask_reparent_relinked:
  assumes "updateTask_reparent n d t k u = Some (e, d1)"
  shows "db_rel (relinked k) d d1"
proof -
  let ?d0 = "case parentTaskId t of None \<Rightarrow> d | Some old \<Rightarrow> removeChild d old k"
  have d0: "db_rel (relinked k) d ?d0"
    by (cases "parentTaskId t") (simp_all add: db_rel_refl relinked_refl removeChild_relinked)
  have "d1 = d \<or> d1 = ?d0 \<or> (\<exists>p np. getTaskById ?d0 p = Some np \<and> d1 = pushChild ?d0 np k)"
    using assms
    by (auto simp: updateTask_reparent_def Let_def split: option.splits if_splits bool.splits)
  then show ?thesis
    using d0 db_relinked_trans[OF d0 pushChild_relinked] by (auto simp: db_rel_refl relinked_refl)
qed

lemma checkAndCompleteParent_rel: "db_rel autoCompleted d (checkAndCompleteParent d t)"
proof -
  have r: "\<And>a. autoCompleted a a" by (simp add: autoCompleted_def)
  have "checkAndCompleteParent d t = d \<or>
        (\<exists>p parent. getTaskById d p = Some parent \<and>
            checkAndCompleteParent d t = saveTask d (parent\<lparr>status := Completed\<rparr>))"
    by (auto simp: checkAndCompleteParent_def split: option.splits)
  then show ?thesis
  proof
    assume "checkAndCompleteParent d t = d"
    then show ?thesis using db_rel_refl[of autoCompleted, OF r] by simp
  next
    assume "\<exists>p parent. getTaskById d p = Some parent \<and>
            checkAndCompleteParent d t = saveTask d (parent\<lparr>status := Completed\<rparr>)"
    then obtain p parent where p: "getTaskById d p = Some parent"
      and eq: "checkAndCompleteParent d t = saveTask d (parent\<lparr>status := Completed\<rparr>)" by blast
    show ?thesis unfolding eq
      using p getTaskById_id[OF p]
      by (intro db_rel_save[where a = parent]) (auto simp: autoCompleted_def)
  qed
qed

lemma cascadeReach_relinked:
  assumes rel: "db_rel (relinked k) d d1" and t: "getTaskById d k = Some t"
      and reach: "cascadeReach d (childTaskIds t) x"
  shows "x = k \<or> cascadeReach d1 (childTaskIds t) x"
  using reach
proof (induction rule: cascadeReach.induct)
  case (child c tc)
  obtain b where "getTaskById d1 c = Some b" "relinked k tc b"
    using db_rel_Some[OF rel child(2)] by blast
  then show ?case using child by (auto simp: relinked_def intro: cascadeReach.child)
next
  case (step y ty x tx)
  obtain bx where bx: "getTaskById d1 x = Some bx" "relinked k tx bx"
    using db_rel_Some[OF rel step(4)] by blast
  then have sx: "status bx \<noteq> Completed" using step(5) by (auto simp: relinked_def)
  show ?case
  proof (cases "x = k")
    case True then show ?thesis by simp
  next
    case xk: False
    show ?thesis
    proof (cases "y = k")
      case True
      then have "x \<in> set (childTaskIds t)" using step(2,3) t by simp
      then show ?thesis using bx(1) sx by (auto intro: cascadeReach.child)
    next
      case False
      then have ry: "cascadeReach d1 (childTaskIds t) y" using step.IH by simp
      obtain by' where by': "getTaskById d1 y = Some by'" "relinked k ty by'"
        using db_rel_Some[OF rel step(2)] by blast
      then have "x \<in> set (childTaskIds by')" using step(3) xk by (auto simp: relinked_def)
      then show ?thesis using cascadeReach.step[OF ry by'(1) _ bx(1) sx] by simp
    qed
  qed
qed

subsection \<open>The records that an update leaves alone\<close>

lemma db_rel_back:
  assumes "db_rel R d d'" "getTaskById d' k = Some b"
  shows "\<exists>a. getTaskById d k = Some a \<and> R a b"
proof -
  from assms(1) have "rel_option R (getTaskById d k) (getTaskById d' k)"
    by (simp add: db_rel_def)
  then show ?thesis using assms(2) by (cases "getTaskById d k") auto
qed

lemma cascadeReach_Nil: "\<not> cascadeReach d [] x"
proof
  assume "cascadeReach d [] x"
  then show False by (induction rule: cascadeReach.induct) auto
qed

lemma cascadeReach_open:
  "cascadeReach d cs x \<Longrightarrow> \<exists>t. getTaskById d x = Some t \<and> status t \<noteq> Completed"
  by (induction rule: cascadeReach.induct) auto

lemma cascadeReach_mono:
  assumes "cascadeReach d cs x" "set cs \<subseteq> set cs'"
  shows "cascadeReach d cs' x"
  using assms
proof (induction rule: cascadeReach.induct)
  case (child c t)
  then show ?case by (auto intro: cascadeReach.child)
next
  case (step y ty x tx)
  then show ?case by (auto intro: cascadeReach.step)
qed

lemma cascadeReach_below:
  assumes c: "c \<in> set cs" "getTaskById d c = Some child" "status child \<noteq> Completed"
      and reach: "cascadeReach d (childTaskIds child) x"
  shows "cascadeReach d cs x"
  using reach
proof (induction rule: cascadeReach.induct)
  case (child c' t)
  have "cascadeReach d cs c" using c by (rule cascadeReach.child)
  from cascadeReach.step[OF this c(2) child(1,2,3)] show ?case .
next
  case (step y ty x tx)
  from cascadeReach.step[OF step.IH step(2,3,4,5)] show ?case .
qed

lemma cascadeReach_cascaded_back:
  assumes rel: "db_cascaded d d'" and reach: "cascadeReach d' cs x"
  shows "cascadeReach d cs x"
  using reach
proof (induction rule: cascadeReach.induct)
  case (child c t)
  obtain a where "getTaskById d c = Some a" "cascaded a t"
    using db_rel_back[OF rel[unfolded db_cascaded_def] child(2)] by blast
  then have "getTaskById d c = Some t" using child(3) by (auto simp: cascaded_def)
  then show ?case using child by (auto intro: cascadeReach.child)
next
  case (step y ty x tx)
  obtain ay where "getTaskById d y = Some ay" "cascaded ay ty"
    using db_rel_back[OF rel[unfolded db_cascaded_def] step(2)] by blast
  moreover have "status ty \<noteq> Completed" using cascadeReach_open[OF step(1)] step(2) by simp
  ultimately have y: "getTaskById d y = Some ty" by (auto simp: cascaded_def)
  obtain ax where "getTaskById d x = Some ax" "cascaded ax tx"
    using db_rel_back[OF rel[unfolded db_cascaded_def] step(4)] by blast
  then have x: "getTaskById d x = Some tx" using step(5) by (auto simp: cascaded_def)
  from cascadeReach.step[OF step.IH y step(3) x step(5)] show ?case .
qed

text \<open>The cascade changes no record but those it reaches.\<close>

lemma completeAllDescendants_only:
  "completeAllDescendants n d cs = Some d' \<Longrightarrow> getTaskById d x = Some a \<Longrightarrow>
   getTaskById d' x \<noteq> Some a \<Longrightarrow> cascadeReach d cs x"
proof (induction n d cs arbitrary: d' rule: completeAllDescendants.induct)
  case (1 n d)
  then show ?case by simp
next
  case (2 n d c cs)
  note IH = "2.IH" and run = "2.prems"(1) and x = "2.prems"(2) and changed = "2.prems"(3)
  have up: "cascadeReach d cs x \<Longrightarrow> cascadeReach d (c # cs) x"
    by (rule cascadeReach_mono) auto
  show ?case
  proof (cases "getTaskById d c")
    case None
    then have "completeAllDescendants n d cs = Some d'" using run by simp
    from IH(1)[OF None this x changed] show ?thesis by (rule up)
  next
    case (Some child)
    show ?thesis
    proof (cases "status child = Completed")
      case True
      then have "completeAllDescendants n d cs = Some d'" using run Some by simp
      from IH(4)[OF Some _ this x changed] True show ?thesis by (auto intro: up)
    next
      case False
      then obtain m where n: "n = Suc m" using run Some by (cases n) auto
      let ?child' = "child\<lparr>status := Completed, priority := None\<rparr>"
      let ?d0 = "saveTask d ?child'"
      from run Some False n obtain d1 where
        d1: "completeAllDescendants m ?d0 (childTaskIds ?child') = Some d1"
        and d': "completeAllDescendants n d1 cs = Some d'"
        by (auto simp: Let_def split: option.splits)
      have cid: "task_id child = c" using getTaskById_id[OF Some] .
      have r0: "db_cascaded d ?d0" using db_cascaded_save[OF Some False] .
      have r1: "db_cascaded ?d0 d1"
        using completeAllDescendants_post[OF d1] by (simp add: cascade_post_def)
      have r01: "db_cascaded d d1" using db_cascaded_trans[OF r0 r1] .
      show ?thesis
      proof (cases "x = c")
        case True
        then show ?thesis using Some False by (auto intro: cascadeReach.child)
      next
        case xc: False
        then have x0: "getTaskById ?d0 x = Some a" using x cid by (simp add: getTaskById_saveTask)
        show ?thesis
        proof (cases "getTaskById d1 x = Some a")
          case True
          from IH(3)[OF Some False n refl d1 d' True changed]
          have "cascadeReach d1 cs x" .
          then have "cascadeReach d cs x" using cascadeReach_cascaded_back[OF r01] by blast
          then show ?thesis by (rule up)
        next
          case False
          from IH(2)[OF Some \<open>status child \<noteq> Completed\<close> n refl d1 x0 False]
          have "cascadeReach ?d0 (childTaskIds child) x" by simp
          then have "cascadeReach d (childTaskIds child) x"
            using cascadeReach_cascaded_back[OF r0] by blast
          then show ?thesis
            using cascadeReach_below[of c "c # cs" d child x] Some \<open>status child \<noteq> Completed\<close>
            by simp
        qed
      qed
    qed
  qed
qed

lemma cascadeReach_relinked_back:
  assumes rel: "db_rel (relinked k) d d1" and t: "getTaskById d k = Some t"
      and reach: "cascadeReach d1 (childTaskIds t) x"
  shows "x = k \<or> cascadeReach d (childTaskIds t) x"
  using reach
proof (induction rule: cascadeReach.induct)
  case (child c tc)
  obtain a where a: "getTaskById d c = Some a" "relinked k a tc"
    using db_rel_back[OF rel child(2)] by blast
  then have "status a \<noteq> Completed" using child(3) by (auto simp: relinked_def)
  then show ?case using child(1) a(1) by (auto intro: cascadeReach.child)
next
  case (step y ty x tx)
  obtain ax where ax: "getTaskById d x = Some ax" "relinked k ax tx"
    using db_rel_back[OF rel step(4)] by blast
  then have sx: "status ax \<noteq> Completed" using step(5) by (auto simp: relinked_def)
  obtain ay where ay: "getTaskById d y = Some ay" "relinked k ay ty"
    using db_rel_back[OF rel step(2)] by blast
  show ?case
  proof (cases "x = k")
    case True then show ?thesis by simp
  next
    case xk: False
    then have mem: "x \<in> set (childTaskIds ay)" using step(3) ay(2) by (auto simp: relinked_def)
    show ?thesis
    proof (cases "y = k")
      case True
      then have "x \<in> set (childTaskIds t)" using mem ay(1) t by simp
      then show ?thesis using ax(1) sx by (auto intro: cascadeReach.child)
    next
      case False
      then have "cascadeReach d (childTaskIds t) y" using step.IH by simp
      from cascadeReach.step[OF this ay(1) mem ax(1) sx] show ?thesis by simp
    qed
  qed
qed

lemma checkAndCompleteParent_other:
  assumes "parentTaskId t \<noteq> Some x"
  shows "getTaskById (checkAndCompleteParent d t) x = getTaskById d x"
proof (cases "parentTaskId t")
  case None
  then show ?thesis by (simp add: checkAndCompleteParent_def)
next
  case (Some p)
  then have px: "p \<noteq> x" using assms by simp
  show ?thesis
  proof (cases "getTaskById d p")
    case None
    then show ?thesis using Some by (simp add: checkAndCompleteParent_def)
  next
    case (Some parent)
    then have "task_id parent \<noteq> x" using getTaskById_id[OF Some] px by simp
    then show ?thesis
      using Some \<open>parentTaskId t = Some p\<close>
      by (simp add: checkAndCompleteParent_def getTaskById_saveTask)
  qed
qed

text \<open>
  A successful \<open>updateTask\<close> on task \<open>k\<close> leaves the status of every task but these: task
  \<open>k\<close>, its parent, and the tasks that the cascade reaches from the children of \<open>k\<close>.
\<close>

lemma updateTask_status_frame:
  assumes upd: "updateTask n now s k u = Some (Inr t', s')"
      and t: "getTaskById (tasks s) k = Some t"
      and x: "getTaskById (tasks s) x = Some a"
      and xk: "x \<noteq> k"
      and xp: "parentTaskId t' \<noteq> Some x"
      and nr: "\<not> cascadeReach (tasks s) (childTaskIds t) x"
  shows "\<exists>r. getTaskById (tasks s') x = Some r \<and> status r = status a"
proof -
  from updateTask_success[OF upd] t obtain d1 d2 where
    t': "t' = updatedTask t u"
    and rep: "updateTask_reparent n (tasks s) t k u = Some (None, d1)"
    and cad: "(if status t' = Completed then completeAllDescendants n d1 (childTaskIds t')
               else Some d1) = Some d2"
    and s': "tasks s' = checkAndCompleteParent (saveTask d2 t') t'" by auto
  have kids: "childTaskIds t' = childTaskIds t"
    unfolding t' by (simp add: updatedTask_def Let_def)
  have id: "task_id t' = k"
    using getTaskById_id[OF t] unfolding t' by (simp add: updatedTask_def Let_def)
  have rel1: "db_rel (relinked k) (tasks s) d1" using updateTask_reparent_relinked[OF rep] .
  obtain b where b: "getTaskById d1 x = Some b" "relinked k a b"
    using db_rel_Some[OF rel1 x] by blast
  have nr1: "\<not> cascadeReach d1 (childTaskIds t) x"
    using cascadeReach_relinked_back[OF rel1 t] nr xk by blast
  have "getTaskById d2 x = Some b"
  proof (cases "status t' = Completed")
    case True
    then have "completeAllDescendants n d1 (childTaskIds t) = Some d2" using cad kids by simp
    from completeAllDescendants_only[OF this b(1)] nr1 show ?thesis by blast
  next
    case False
    then show ?thesis using cad b(1) by simp
  qed
  then have "getTaskById (saveTask d2 t') x = Some b" using xk id by (simp add: getTaskById_saveTask)
  then have "getTaskById (tasks s') x = Some b"
    unfolding s' using checkAndCompleteParent_other[OF xp] by simp
  then show ?thesis using b(2) by (auto simp: relinked_def)
qed

section \<open>Completing a task\<close>

text \<open>
  C1 (every descendant of a task whose update results in \<open>Completed\<close> is \<open>Completed\<close> with
  no priority) does not hold of the code, and the code departs from its own description:
  \<open>completeAllDescendants\<close> is documented as ``Complete all descendants (children and
  grandchildren) of a task'', yet its recursive call stands inside the guard
  \<open>child.status !== 'Completed'\<close>, so the children of a child that is already \<open>Completed\<close>
  are never visited. In the chain 1, 2, 3, task 2 is completed (which completes 3), task 3
  is reopened, and task 1 is then completed: all three calls succeed, and task 3, a
  grandchild of task 1, is still \<open>InProgress\<close>.
\<close>

theorem completed_update_skips_completed_child:
  "map_option rows
     (updated (updated (updated (Some chainStore) 2 (setStatus Completed))
        3 (setStatus InProgress)) 1 (setStatus Completed)) =
   Some [(1, None, [2], Completed, None, False),
         (2, Some 1, [3], Completed, None, False),
         (3, Some 2, [], InProgress, None, False)]"
  by code_simp

text \<open>
  What the cascade does achieve. After a successful \<open>updateTask\<close> whose resulting status is
  \<open>Completed\<close>, the task is stored with no priority; every child of the task that exists is
  \<open>Completed\<close>; every task reached from the task through a chain of children that exist and
  were not yet \<open>Completed\<close> is \<open>Completed\<close> with no priority; and every other task that was
  already \<open>Completed\<close> keeps the priority it had.
\<close>

lemma completed_update_cascades:
  assumes upd: "updateTask n now s k u = Some (Inr t', s')"
      and comp: "status t' = Completed"
      and t: "getTaskById (tasks s) k = Some t"
  shows "priority t' = None \<and> getTaskById (tasks s') k = Some t' \<and>
         (\<forall>c \<in> set (childTaskIds t). \<forall>tc. getTaskById (tasks s) c = Some tc \<longrightarrow>
            (\<exists>r. getTaskById (tasks s') c = Some r \<and> status r = Completed)) \<and>
         (\<forall>x. cascadeReach (tasks s) (childTaskIds t) x \<longrightarrow>
            (\<exists>r. getTaskById (tasks s') x = Some r \<and> status r = Completed \<and> priority r = None)) \<and>
         (\<forall>x a. x \<noteq> k \<and> getTaskById (tasks s) x = Some a \<and> status a = Completed \<longrightarrow>
            (\<exists>r. getTaskById (tasks s') x = Some r \<and> status r = Completed \<and>
                 priority r = priority a))"
proof -
  from updateTask_success[OF upd] t comp obtain d1 d2 where
    t': "t' = updatedTask t u"
    and rep: "updateTask_reparent n (tasks s) t k u = Some (None, d1)"
    and cad: "completeAllDescendants n d1 (childTaskIds t') = Some d2"
    and s': "tasks s' = checkAndCompleteParent (saveTask d2 t') t'" by auto
  have kids: "childTaskIds t' = childTaskIds t"
    unfolding t' by (simp add: updatedTask_def Let_def)
  have id: "task_id t' = k"
    using getTaskById_id[OF t] unfolding t' by (simp add: updatedTask_def Let_def)
  have prio: "priority t' = None"
    using comp unfolding t' by (auto simp: updatedTask_def Let_def split: if_splits)
  have stored: "getTaskById (tasks s') k = Some t'" using updateTask_stored[OF upd] .
  have rel1: "db_rel (relinked k) (tasks s) d1" using updateTask_reparent_relinked[OF rep] .
  have post: "cascade_post d1 (childTaskIds t) d2"
    using completeAllDescendants_post[OF cad] kids by simp
  have rel2: "db_cascaded d1 d2" using post by (simp add: cascade_post_def)
  have rel4: "db_rel autoCompleted (saveTask d2 t') (tasks s')"
    unfolding s' by (rule checkAndCompleteParent_rel)
  have final: "\<exists>r'. getTaskById (tasks s') x = Some r' \<and> status r' = Completed \<and>
                 priority r' = priority r"
    if "getTaskById d2 x = Some r" "status r = Completed" "x \<noteq> k" for x r
  proof -
    have "getTaskById (saveTask d2 t') x = Some r"
      using that id by (simp add: getTaskById_saveTask)
    from db_rel_Some[OF rel4 this] show ?thesis
      using that(2) by (auto simp: autoCompleted_def)
  qed
  have B: "\<exists>r. getTaskById (tasks s') c = Some r \<and> status r = Completed"
    if c: "c \<in> set (childTaskIds t)" "getTaskById (tasks s) c = Some tc" for c tc
  proof (cases "c = k")
    case True
    then show ?thesis using stored comp by simp
  next
    case False
    obtain b where "getTaskById d1 c = Some b" using db_rel_Some[OF rel1 c(2)] by blast
    then have "isCompleted d2 c" using post c(1) by (auto simp: cascade_post_def)
    then show ?thesis using final False by (auto simp: isCompleted_def)
  qed
  have C: "\<exists>r. getTaskById (tasks s') x = Some r \<and> status r = Completed \<and> priority r = None"
    if r: "cascadeReach (tasks s) (childTaskIds t) x" for x
  proof (cases "x = k")
    case True
    then show ?thesis using stored comp prio by simp
  next
    case False
    then have "cascadeReach d1 (childTaskIds t) x"
      using cascadeReach_relinked[OF rel1 t r] by simp
    from cascadeReach_completed[OF post this] obtain a where
      "getTaskById d2 x = Some (a\<lparr>status := Completed, priority := None\<rparr>)" by blast
    from final[OF this _ False] show ?thesis by simp
  qed
  have D: "\<exists>r. getTaskById (tasks s') x = Some r \<and> status r = Completed \<and>
               priority r = priority a"
    if x: "x \<noteq> k" "getTaskById (tasks s) x = Some a" "status a = Completed" for x a
  proof -
    obtain b where b: "getTaskById d1 x = Some b" "relinked k a b"
      using db_rel_Some[OF rel1 x(2)] by blast
    then have sb: "status b = Completed" "priority b = priority a"
      using x(3) by (auto simp: relinked_def)
    have "getTaskById d2 x = Some b" using db_cascaded_Completed[OF rel2 b(1) sb(1)] .
    from final[OF this sb(1) x(1)] show ?thesis using sb(2) by simp
  qed
  show ?thesis using prio stored B C D by blast
qed

lemma completed_update_cascades_example:
  "updateTask 5 0 chainStore 1 (setStatus Completed) =
     Some (Inr (mkTask 1 ''A'' Completed None None [2] False), chainStore_rootCompleted) \<and>
   status (mkTask 1 ''A'' Completed None None [2] False) = Completed \<and>
   getTaskById (tasks chainStore) 1 = Some (mkTask 1 ''A'' NotStarted (Some Medium) None [2] False) \<and>
   2 \<in> set (childTaskIds (mkTask 1 ''A'' NotStarted (Some Medium) None [2] False)) \<and>
   cascadeReach (tasks chainStore)
     (childTaskIds (mkTask 1 ''A'' NotStarted (Some Medium) None [2] False)) 3 \<and>
   (\<exists>r. getTaskById (tasks chainStore_rootCompleted) 3 = Some r \<and> status r = Completed \<and>
        priority r = None)"
proof -
  let ?a = "mkTask 1 ''A'' NotStarted (Some Medium) None [2] False"
  let ?b = "mkTask 2 ''B'' NotStarted (Some Medium) (Some 1) [3] False"
  have h1: "updateTask 5 0 chainStore 1 (setStatus Completed) =
     Some (Inr (mkTask 1 ''A'' Completed None None [2] False), chainStore_rootCompleted)"
    by code_simp
  have h2: "status (mkTask 1 ''A'' Completed None None [2] False) = Completed"
    by code_simp
  have h3: "getTaskById (tasks chainStore) 1 = Some ?a" by code_simp
  have kids: "childTaskIds ?a = [2]" by code_simp
  have g2: "getTaskById (tasks chainStore) 2 = Some ?b" by code_simp
  have g3: "getTaskById (tasks chainStore) 3 = Some taskC" by code_simp
  have n2: "status ?b \<noteq> Completed" by code_simp
  have n3: "status taskC \<noteq> Completed" by code_simp
  have k3: "3 \<in> set (childTaskIds ?b)" by code_simp
  have r2: "cascadeReach (tasks chainStore) (childTaskIds ?a) 2"
    using cascadeReach.child[OF _ g2 n2, of "childTaskIds ?a"] kids by simp
  have r3: "cascadeReach (tasks chainStore) (childTaskIds ?a) 3"
    using cascadeReach.step[OF r2 g2 k3 g3 n3] .
  from completed_update_cascades[OF h1 h2 h3] r3
  have "\<exists>r. getTaskById (tasks chainStore_rootCompleted) 3 = Some r \<and> status r = Completed \<and>
            priority r = None" by blast
  then show ?thesis using h1 h2 h3 kids r3 by simp
qed

section \<open>Completing the parent\<close>

lemma areAllChildrenCompleted_iff:
  "areAllChildrenCompleted d t \<longleftrightarrow>
     childTaskIds t \<noteq> [] \<and>
     (\<forall>c \<in> set (childTaskIds t). \<exists>ct. getTaskById d c = Some ct \<and> status ct = Completed)"
  by (auto simp: areAllChildrenCompleted_def list_all_iff split: option.splits)

lemma siblingStore_reached:
  "created unlistedChildStore ((newTask ''C'' (Some 1))\<lparr>d_status := Some Completed\<rparr>) =
   Some siblingStore"
  by code_simp

text \<open>
  The parent is completed also by a child that it does not list: in \<open>siblingStore\<close> task 1
  lists task 3 alone, and completing task 2 completes task 1.
\<close>

lemma parent_completed_by_unlisted_child:
  "updateTask 5 0 siblingStore 2 (setStatus Completed) =
     Some (Inr (mkTask 2 ''B'' Completed None (Some 1) [] False), siblingStore_completed)"
  by code_simp

text \<open>
  C6, as the specification states it, fails, in four ways.

  \<^item> The second half: \<open>checkAndCompleteParent\<close> writes the parent's status with \<open>saveTask\<close>
    and does not go through \<open>updateTask\<close>, so the check is not repeated for the grandparent.
    In the chain 1, 2, 3, completing task 3 completes task 2; task 1, whose only child is
    task 2, stays \<open>NotStarted\<close>.
  \<^item> The children that count are the ids in the parent's \<open>childTaskIds\<close>, and an empty list
    counts as ``not all completed''. After create A, create B under A, delete B, delete A,
    restore B, restore A, task 2 has parent 1 and task 1 lists no child; completing task 2
    leaves task 1 \<open>NotStarted\<close>.
  \<^item> The check is made only when the updated task itself ends up \<open>Completed\<close>. In the store
    above a task 3 is created under task 1 with status \<open>Completed\<close>, so that every child
    listed by task 1 is \<open>Completed\<close>; the update of task 2 to \<open>InProgress\<close> leaves task 1
    \<open>NotStarted\<close>.
  \<^item> \<open>!task.parentTaskId\<close> takes the parent id 0 for no parent. In a store whose id counter
    stands at 0, A is created (id 0) and B under it (id 1); completing B leaves task 0
    \<open>NotStarted\<close>.
\<close>

theorem auto_completion_not_as_stated:
  "map_option rows (updated (Some chainStore) 3 (setStatus Completed)) =
     Some [(1, None, [2], NotStarted, Some Medium, False),
           (2, Some 1, [3], Completed, Some Medium, False),
           (3, Some 2, [], Completed, None, False)] \<and>
   map_option rows (updated unlistedChildStore 2 (setStatus Completed)) =
     Some [(1, None, [], NotStarted, Some Medium, False),
           (2, Some 1, [], Completed, None, False)] \<and>
   map_option rows
     (updated (created unlistedChildStore ((newTask ''C'' (Some 1))\<lparr>d_status := Some Completed\<rparr>))
        2 (setStatus InProgress)) =
     Some [(1, None, [3], NotStarted, Some Medium, False),
           (2, Some 1, [], InProgress, Some Medium, False),
           (3, Some 1, [], Completed, Some Medium, False)] \<and>
   map_option rows
     (updated (created (created (Some (emptyStore\<lparr>nextId := Some 0\<rparr>)) (newTask ''A'' None))
                 (newTask ''B'' (Some 0)))
        1 (setStatus Completed)) =
     Some [(0, None, [1], NotStarted, Some Medium, False),
           (1, Some 0, [], Completed, None, False)]"
  by code_simp

text \<open>
  C6, amended. After a successful \<open>updateTask\<close>:

  \<^item> when the resulting status is \<open>Completed\<close>, the \<open>parentTaskId\<close> of the updated task is an
    id other than 0, the task with that id exists, its \<open>childTaskIds\<close> is not empty, and
    every id in its \<open>childTaskIds\<close> is that of a task that exists and is \<open>Completed\<close>, the
    parent is \<open>Completed\<close> (the updated task need not be among the listed children);
  \<^item> the check is made for the parent alone: every task other than the updated task, its
    parent, and the tasks reached from the children of the updated task through chains of
    children that exist and are not yet \<open>Completed\<close>, has the status it had before the
    call. So a grandparent that is none of these is not auto-completed, even when all of
    its children are now \<open>Completed\<close>.
\<close>

theorem parent_auto_completed:
  assumes upd: "updateTask n now s k u = Some (Inr t', s')"
  shows "(status t' = Completed \<and> parentTaskId t' = Some p \<and> p \<noteq> 0 \<and>
          getTaskById (tasks s') p = Some parent \<and> childTaskIds parent \<noteq> [] \<and>
          (\<forall>c \<in> set (childTaskIds parent).
             \<exists>ct. getTaskById (tasks s') c = Some ct \<and> status ct = Completed) \<longrightarrow>
          status parent = Completed) \<and>
         (getTaskById (tasks s) k = Some t \<and> getTaskById (tasks s) x = Some a \<and> x \<noteq> k \<and>
          parentTaskId t' \<noteq> Some x \<and> \<not> cascadeReach (tasks s) (childTaskIds t) x \<longrightarrow>
          (\<exists>r. getTaskById (tasks s') x = Some r \<and> status r = status a))"
proof (intro conjI impI)
  assume hyp: "status t' = Completed \<and> parentTaskId t' = Some p \<and> p \<noteq> 0 \<and>
          getTaskById (tasks s') p = Some parent \<and> childTaskIds parent \<noteq> [] \<and>
          (\<forall>c \<in> set (childTaskIds parent).
             \<exists>ct. getTaskById (tasks s') c = Some ct \<and> status ct = Completed)"
  then have comp: "status t' = Completed"
    and par: "parentTaskId t' = Some p" "p \<noteq> 0" "getTaskById (tasks s') p = Some parent"
    and kids: "childTaskIds parent \<noteq> []"
    and all: "\<forall>c \<in> set (childTaskIds parent).
                \<exists>ct. getTaskById (tasks s') c = Some ct \<and> status ct = Completed"
    by blast+
  from updateTask_success[OF upd] obtain d2 where
    s': "tasks s' = checkAndCompleteParent (saveTask d2 t') t'" by blast
  let ?d3 = "saveTask d2 t'"
  show "status parent = Completed"
  proof (cases "getTaskById ?d3 p")
    case None
    then have "tasks s' = ?d3" using s' par comp by (simp add: checkAndCompleteParent_def)
    then show ?thesis using None par by simp
  next
    case (Some q)
    have qid: "task_id q = p" using getTaskById_id[OF Some] .
    show ?thesis
    proof (cases "status q = Completed")
      case True
      then have "tasks s' = ?d3" using s' par comp Some by (simp add: checkAndCompleteParent_def)
      then show ?thesis using Some par True by simp
    next
      case notyet: False
      show ?thesis
      proof (cases "areAllChildrenCompleted ?d3 q")
        case True
        then have "tasks s' = saveTask ?d3 (q\<lparr>status := Completed\<rparr>)"
          using s' par comp Some notyet by (simp add: checkAndCompleteParent_def)
        then have "getTaskById (tasks s') p = Some (q\<lparr>status := Completed\<rparr>)"
          using qid by (simp add: getTaskById_saveTask)
        then show ?thesis using par by auto
      next
        case False
        then have eq: "tasks s' = ?d3"
          using s' par comp Some notyet by (simp add: checkAndCompleteParent_def)
        then have "parent = q" using Some par by simp
        then have "areAllChildrenCompleted ?d3 q"
          using kids all eq by (auto simp: areAllChildrenCompleted_iff)
        then show ?thesis using False by simp
      qed
    qed
  qed
next
  assume "getTaskById (tasks s) k = Some t \<and> getTaskById (tasks s) x = Some a \<and> x \<noteq> k \<and>
          parentTaskId t' \<noteq> Some x \<and> \<not> cascadeReach (tasks s) (childTaskIds t) x"
  then show "\<exists>r. getTaskById (tasks s') x = Some r \<and> status r = status a"
    using updateTask_status_frame[OF upd] by blast
qed

theorem parent_auto_completed_witness:
  "updateTask 5 0 chainStore 3 (setStatus Completed) =
     Some (Inr (taskC\<lparr>status := Completed, priority := None\<rparr>), chainStore_leafCompleted) \<and>
   status (taskC\<lparr>status := Completed, priority := None\<rparr>) = Completed \<and>
   parentTaskId (taskC\<lparr>status := Completed, priority := None\<rparr>) = Some 2 \<and> (2::nat) \<noteq> 0 \<and>
   getTaskById (tasks chainStore_leafCompleted) 2 =
     Some (mkTask 2 ''B'' Completed (Some Medium) (Some 1) [3] False) \<and>
   childTaskIds (mkTask 2 ''B'' Completed (Some Medium) (Some 1) [3] False) = [3] \<and>
   getTaskById (tasks chainStore_leafCompleted) 3 =
     Some (taskC\<lparr>status := Completed, priority := None\<rparr>) \<and>
   getTaskById (tasks chainStore) 2 =
     Some (mkTask 2 ''B'' NotStarted (Some Medium) (Some 1) [3] False) \<and>
   status (mkTask 2 ''B'' Completed (Some Medium) (Some 1) [3] False) = Completed \<and>
   getTaskById (tasks chainStore) 3 = Some taskC \<and>
   getTaskById (tasks chainStore) 1 =
     Some (mkTask 1 ''A'' NotStarted (Some Medium) None [2] False) \<and>
   (1::nat) \<noteq> 3 \<and>
   \<not> cascadeReach (tasks chainStore) (childTaskIds taskC) 1 \<and>
   (\<exists>r. getTaskById (tasks chainStore_leafCompleted) 1 = Some r \<and>
        status r = status (mkTask 1 ''A'' NotStarted (Some Medium) None [2] False))"
proof -
  let ?a = "mkTask 1 ''A'' NotStarted (Some Medium) None [2] False"
  let ?b = "mkTask 2 ''B'' Completed (Some Medium) (Some 1) [3] False"
  let ?c = "taskC\<lparr>status := Completed, priority := None\<rparr>"
  have h1: "updateTask 5 0 chainStore 3 (setStatus Completed) =
     Some (Inr ?c, chainStore_leafCompleted)" by code_simp
  have h2: "status ?c = Completed" by code_simp
  have h3: "parentTaskId ?c = Some 2" by code_simp
  have h4: "(2::nat) \<noteq> 0" by simp
  have h5: "getTaskById (tasks chainStore_leafCompleted) 2 = Some ?b" by code_simp
  have kids: "childTaskIds ?b = [3]" by code_simp
  have h6: "childTaskIds ?b \<noteq> []" using kids by simp
  have g3: "getTaskById (tasks chainStore_leafCompleted) 3 = Some ?c" by code_simp
  have h7: "\<forall>c \<in> set (childTaskIds ?b).
      \<exists>ct. getTaskById (tasks chainStore_leafCompleted) c = Some ct \<and> status ct = Completed"
    using kids g3 h2 by simp
  have before: "getTaskById (tasks chainStore) 2 =
     Some (mkTask 2 ''B'' NotStarted (Some Medium) (Some 1) [3] False)" by code_simp
  have f1: "getTaskById (tasks chainStore) 3 = Some taskC" by code_simp
  have f2: "getTaskById (tasks chainStore) 1 = Some ?a" by code_simp
  have f3: "(1::nat) \<noteq> 3" by simp
  have f4: "parentTaskId ?c \<noteq> Some 1" using h3 by simp
  have "childTaskIds taskC = []" by code_simp
  then have f5: "\<not> cascadeReach (tasks chainStore) (childTaskIds taskC) 1"
    using cascadeReach_Nil by simp
  note inst = parent_auto_completed[OF h1, of 2 ?b taskC 1 ?a]
  from inst h2 h3 h4 h5 h6 h7 have c1: "status ?b = Completed" by blast
  from inst f1 f2 f3 f4 f5 have c2: "\<exists>r. getTaskById (tasks chainStore_leafCompleted) 1 = Some r \<and>
        status r = status ?a" by blast
  show ?thesis using h1 h2 h3 h4 h5 kids g3 before c1 f1 f2 f3 f5 c2 by blast
qed

section \<open>The family closure of a filter\<close>

subsection \<open>The predicates\<close>

lemma matchesFilters_iff: "matchesFilters lower f t \<longleftrightarrow> satisfies lower f t"
proof -
  have a: "(case f_id f of None \<Rightarrow> False
            | Some (filterValue, negate) \<Rightarrow>
                rejects negate (case filterValue of IdList ids \<Rightarrow> task_id t \<in> set ids
                                | IdValue i \<Rightarrow> task_id t = i)) \<longleftrightarrow>
           \<not> (\<forall>v negate. f_id f = Some (v, negate) \<longrightarrow> idTest v t \<noteq> negate)"
    by (auto simp: rejects_def idTest_def split: option.splits idFilter.splits)
  have b: "(case f_project f of None \<Rightarrow> False
            | Some (filterValue, negate) \<Rightarrow>
                rejects negate (case project t of None \<Rightarrow> False
                                | Some p \<Rightarrow> p \<noteq> [] \<and> lower p = lower filterValue)) \<longleftrightarrow>
           \<not> (\<forall>v negate. f_project f = Some (v, negate) \<longrightarrow> projectTest lower v t \<noteq> negate)"
    by (auto simp: rejects_def projectTest_def split: option.splits)
  have c: "(case f_priority f of None \<Rightarrow> False
            | Some (filterValue, negate) \<Rightarrow>
                rejects negate (case priority t of None \<Rightarrow> False
                                | Some p \<Rightarrow> lower (priorityName p) = lower filterValue)) \<longleftrightarrow>
           \<not> (\<forall>v negate. f_priority f = Some (v, negate) \<longrightarrow> priorityTest lower v t \<noteq> negate)"
    by (auto simp: rejects_def priorityTest_def split: option.splits)
  have d: "(case f_status f of None \<Rightarrow> False
            | Some (filterValue, negate) \<Rightarrow>
                rejects negate (lower (statusName (status t)) = lower filterValue)) \<longleftrightarrow>
           \<not> (\<forall>v negate. f_status f = Some (v, negate) \<longrightarrow> statusTest lower v t \<noteq> negate)"
    by (auto simp: rejects_def statusTest_def split: option.splits)
  have e: "(if \<not> A then False else if \<not> B then False else if \<not> C then False
            else if \<not> D then False else True) \<longleftrightarrow> A \<and> B \<and> C \<and> D" for A B C D
    by simp
  show ?thesis unfolding matchesFilters_def satisfies_def a b c d by (rule e)
qed

subsection \<open>Ancestors\<close>

lemma ancestorIn_has_parent: "ancestorIn allTasks t x \<Longrightarrow> parentTaskId t \<noteq> None"
  by (induction rule: ancestorIn.induct) auto

lemma ancestorIn_first:
  assumes "ancestorIn allTasks t x" "parentTaskId t = Some p"
  shows "\<exists>a. getTaskById allTasks p = Some a \<and> (x = a \<or> ancestorIn allTasks a x)"
  using assms
proof (induction rule: ancestorIn.induct)
  case (parent q a)
  then show ?case by auto
next
  case (above b q a)
  then obtain a0 where a0: "getTaskById allTasks p = Some a0"
    and d: "b = a0 \<or> ancestorIn allTasks a0 b" by blast
  from d show ?case
  proof
    assume "b = a0"
    then have "ancestorIn allTasks a0 a" using above(2,3) by (auto intro: ancestorIn.parent)
    then show ?thesis using a0 by blast
  next
    assume "ancestorIn allTasks a0 b"
    then have "ancestorIn allTasks a0 a" using above(2,3) by (auto intro: ancestorIn.above)
    then show ?thesis using a0 by blast
  qed
qed

lemma ancestorIn_trans:
  assumes "ancestorIn allTasks a x" "ancestorIn allTasks t a"
  shows "ancestorIn allTasks t x"
  using assms
proof (induction rule: ancestorIn.induct)
  case (parent p a')
  then show ?case by (auto intro: ancestorIn.above)
next
  case (above b p a')
  then show ?case by (auto intro: ancestorIn.above)
qed

lemma parentIds_root: "parentTaskId t = None \<Longrightarrow> parentIds allTasks t = {}"
  using ancestorIn_has_parent[of allTasks t] by (auto simp: parentIds_def)

lemma parentIds_dangling:
  assumes "parentTaskId t = Some p" "getTaskById allTasks p = None"
  shows "parentIds allTasks t = {p}"
  using assms ancestorIn_first[of allTasks t _ p] by (auto simp: parentIds_def)

lemma parentIds_step:
  assumes p: "parentTaskId t = Some p" and a: "getTaskById allTasks p = Some a"
  shows "parentIds allTasks t = insert p (parentIds allTasks a)"
proof (intro equalityI subsetI)
  fix q assume "q \<in> parentIds allTasks t"
  then consider "q = p" | b where "ancestorIn allTasks t b" "parentTaskId b = Some q"
    using p by (auto simp: parentIds_def)
  then show "q \<in> insert p (parentIds allTasks a)"
  proof cases
    case 1 then show ?thesis by simp
  next
    case 2
    from ancestorIn_first[OF 2(1) p] a have "b = a \<or> ancestorIn allTasks a b" by auto
    then show ?thesis using 2(2) by (auto simp: parentIds_def)
  qed
next
  fix q assume "q \<in> insert p (parentIds allTasks a)"
  then consider "q = p" | "parentTaskId a = Some q"
    | b where "ancestorIn allTasks a b" "parentTaskId b = Some q"
    by (auto simp: parentIds_def)
  then show "q \<in> parentIds allTasks t"
  proof cases
    case 1 then show ?thesis using p by (simp add: parentIds_def)
  next
    case 2
    have "ancestorIn allTasks t a" using p a by (rule ancestorIn.parent)
    then show ?thesis using 2 by (auto simp: parentIds_def)
  next
    case 3
    have "ancestorIn allTasks t a" using p a by (rule ancestorIn.parent)
    from ancestorIn_trans[OF 3(1) this] show ?thesis using 3(2) by (auto simp: parentIds_def)
  qed
qed

lemma parentIds_found:
  "{x. \<exists>p \<in> parentIds allTasks t. getTaskById allTasks p = Some x} = {x. ancestorIn allTasks t x}"
proof (intro equalityI subsetI)
  fix x assume "x \<in> {x. \<exists>p \<in> parentIds allTasks t. getTaskById allTasks p = Some x}"
  then show "x \<in> {x. ancestorIn allTasks t x}"
    by (auto simp: parentIds_def intro: ancestorIn.parent ancestorIn.above)
next
  fix x assume "x \<in> {x. ancestorIn allTasks t x}"
  then have "ancestorIn allTasks t x" by simp
  then show "x \<in> {x. \<exists>p \<in> parentIds allTasks t. getTaskById allTasks p = Some x}"
    by (cases rule: ancestorIn.cases) (auto simp: parentIds_def)
qed

lemma set_addId: "set (addId x xs) = insert x (set xs)"
  by (auto simp: addId_def)

lemma distinct_addId: "distinct xs \<Longrightarrow> distinct (addId x xs)"
  by (auto simp: addId_def)

lemma addAncestors_set:
  "addAncestors n allTasks rs t add = Some add' \<Longrightarrow>
   set add' = set add \<union> (parentIds allTasks t - set rs) \<and> (distinct add \<longrightarrow> distinct add')"
proof (induction n arbitrary: t add add')
  case 0
  then show ?case by simp
next
  case (Suc n)
  show ?case
  proof (cases "parentTaskId t")
    case None
    then show ?thesis using Suc.prems by (simp add: parentIds_root)
  next
    case (Some p)
    let ?add1 = "if p \<notin> set rs then addId p add else add"
    have s1: "set ?add1 = set add \<union> ({p} - set rs)" by (auto simp: set_addId)
    have d1: "distinct add \<longrightarrow> distinct ?add1" by (auto simp: distinct_addId)
    show ?thesis
    proof (cases "getTaskById allTasks p")
      case None
      then have "add' = ?add1" using Suc.prems Some by (simp add: Let_def)
      then show ?thesis using s1 d1 parentIds_dangling[OF Some None] by auto
    next
      case (Some a)
      then have "addAncestors n allTasks rs a ?add1 = Some add'"
        using Suc.prems \<open>parentTaskId t = Some p\<close> by (simp add: Let_def)
      from Suc.IH[OF this] show ?thesis
        using s1 d1 parentIds_step[OF \<open>parentTaskId t = Some p\<close> Some] by auto
    qed
  qed
qed

subsection \<open>Descendants\<close>

lemma descendantIn_Nil: "\<not> descendantIn allTasks [] x"
proof
  assume "descendantIn allTasks [] x"
  then show False by (induction rule: descendantIn.induct) auto
qed

lemma descendantIn_mono:
  assumes "descendantIn allTasks cs x" "set cs \<subseteq> set cs'"
  shows "descendantIn allTasks cs' x"
  using assms
proof (induction rule: descendantIn.induct)
  case (child c x)
  then show ?case by (auto intro: descendantIn.child)
next
  case (below y c x)
  then show ?case by (auto intro: descendantIn.below)
qed

lemma descendantIn_trans:
  assumes "descendantIn allTasks (childTaskIds y) x" "descendantIn allTasks cs y"
  shows "descendantIn allTasks cs x"
  using assms
proof (induction rule: descendantIn.induct)
  case (child c x)
  then show ?case by (auto intro: descendantIn.below)
next
  case (below z c x)
  then show ?case by (auto intro: descendantIn.below)
qed

lemma descendantIn_Cons:
  "descendantIn allTasks (c # cs) x \<longleftrightarrow>
     getTaskById allTasks c = Some x \<or>
     (\<exists>ch. getTaskById allTasks c = Some ch \<and> descendantIn allTasks (childTaskIds ch) x) \<or>
     descendantIn allTasks cs x"
  (is "?L \<longleftrightarrow> ?R x")
proof
  assume ?L
  then show "?R x"
  proof (induction rule: descendantIn.induct)
    case (child c' x)
    then show ?case by (auto intro: descendantIn.child)
  next
    case (below y c' x)
    from below.IH show ?case
    proof (elim disjE exE conjE)
      assume "getTaskById allTasks c = Some y"
      moreover have "descendantIn allTasks (childTaskIds y) x"
        using below(2,3) by (rule descendantIn.child)
      ultimately show ?thesis by blast
    next
      fix ch assume "getTaskById allTasks c = Some ch" "descendantIn allTasks (childTaskIds ch) y"
      moreover from this(2) have "descendantIn allTasks (childTaskIds ch) x"
        using below(2,3) by (rule descendantIn.below)
      ultimately show ?thesis by blast
    next
      assume "descendantIn allTasks cs y"
      then have "descendantIn allTasks cs x" using below(2,3) by (rule descendantIn.below)
      then show ?thesis by blast
    qed
  qed
next
  assume "?R x"
  then show ?L
  proof (elim disjE exE conjE)
    assume "getTaskById allTasks c = Some x"
    then show ?thesis by (auto intro: descendantIn.child)
  next
    fix ch assume ch: "getTaskById allTasks c = Some ch"
      and d: "descendantIn allTasks (childTaskIds ch) x"
    have "descendantIn allTasks (c # cs) ch" using ch by (auto intro: descendantIn.child)
    from descendantIn_trans[OF d this] show ?thesis .
  next
    assume "descendantIn allTasks cs x"
    then show ?thesis by (rule descendantIn_mono) auto
  qed
qed

lemma childIdsBelow_Nil: "childIdsBelow allTasks [] = {}"
  by (simp add: childIdsBelow_def descendantIn_Nil)

lemma childIdsBelow_Cons:
  "childIdsBelow allTasks (c # cs) =
     insert c ((case getTaskById allTasks c of
                  None \<Rightarrow> {}
                | Some ch \<Rightarrow> childIdsBelow allTasks (childTaskIds ch)) \<union>
               childIdsBelow allTasks cs)"
proof (cases "getTaskById allTasks c")
  case None
  then show ?thesis by (auto simp: childIdsBelow_def descendantIn_Cons)
next
  case (Some ch)
  then show ?thesis by (auto simp: childIdsBelow_def descendantIn_Cons)
qed

lemma childIdsBelow_found:
  "{x. \<exists>c \<in> childIdsBelow allTasks cs. getTaskById allTasks c = Some x} =
   {x. descendantIn allTasks cs x}"
proof (intro equalityI subsetI)
  fix x assume "x \<in> {x. \<exists>c \<in> childIdsBelow allTasks cs. getTaskById allTasks c = Some x}"
  then show "x \<in> {x. descendantIn allTasks cs x}"
    by (auto simp: childIdsBelow_def intro: descendantIn.child descendantIn.below)
next
  fix x assume "x \<in> {x. descendantIn allTasks cs x}"
  then have "descendantIn allTasks cs x" by simp
  then show "x \<in> {x. \<exists>c \<in> childIdsBelow allTasks cs. getTaskById allTasks c = Some x}"
    by (cases rule: descendantIn.cases) (auto simp: childIdsBelow_def)
qed

lemma addDescendants_set:
  "addDescendants n allTasks rs cs add = Some add' \<Longrightarrow>
   set add' = set add \<union> (childIdsBelow allTasks cs - set rs) \<and>
   (distinct add \<longrightarrow> distinct add')"
proof (induction n allTasks rs cs add arbitrary: add' rule: addDescendants.induct)
  case (1 n allTasks rs add)
  then show ?case by (simp add: childIdsBelow_Nil)
next
  case (2 n allTasks rs c cs add)
  let ?add1 = "if c \<notin> set rs then addId c add else add"
  have s1: "set ?add1 = set add \<union> ({c} - set rs)" by (auto simp: set_addId)
  have d1: "distinct add \<longrightarrow> distinct ?add1" by (auto simp: distinct_addId)
  show ?case
  proof (cases "getTaskById allTasks c")
    case None
    then have "addDescendants n allTasks rs cs ?add1 = Some add'"
      using "2.prems" by (simp add: Let_def)
    from "2.IH"(1)[OF refl None this] show ?thesis
      using s1 d1 None by (auto simp: childIdsBelow_Cons)
  next
    case (Some ch)
    then obtain m add2 where n: "n = Suc m"
      and a2: "addDescendants m allTasks rs (childTaskIds ch) ?add1 = Some add2"
      and a': "addDescendants n allTasks rs cs add2 = Some add'"
      using "2.prems" by (cases n) (auto simp: Let_def split: option.splits)
    from "2.IH"(2)[OF refl Some n a2] have
      i2: "set add2 = set ?add1 \<union> (childIdsBelow allTasks (childTaskIds ch) - set rs)"
      and di2: "distinct ?add1 \<longrightarrow> distinct add2" by auto
    from "2.IH"(3)[OF refl Some n a2 a'] have
      i3: "set add' = set add2 \<union> (childIdsBelow allTasks cs - set rs)"
      and di3: "distinct add2 \<longrightarrow> distinct add'" by auto
    show ?thesis using s1 d1 i2 di2 i3 di3 Some by (auto simp: childIdsBelow_Cons)
  qed
qed

lemma addFamilies_set:
  "addFamilies n allTasks rs ms add = Some add' \<Longrightarrow>
   set add' = set add \<union>
     ((\<Union>m \<in> set ms. parentIds allTasks m \<union> childIdsBelow allTasks (childTaskIds m)) - set rs) \<and>
   (distinct add \<longrightarrow> distinct add')"
proof (induction ms arbitrary: add add')
  case Nil
  then show ?case by simp
next
  case (Cons m ms)
  from Cons.prems obtain a1 a2 where
    a1: "addAncestors n allTasks rs m add = Some a1"
    and a2: "addDescendants n allTasks rs (childTaskIds m) a1 = Some a2"
    and a': "addFamilies n allTasks rs ms a2 = Some add'"
    by (auto split: option.splits)
  show ?case
    using addAncestors_set[OF a1] addDescendants_set[OF a2] Cons.IH[OF a'] by auto
qed

subsection \<open>Termination\<close>

lemma depthIn_unique: "depthIn allTasks t a \<Longrightarrow> depthIn allTasks t b \<Longrightarrow> a = b"
proof (induction arbitrary: b rule: depthIn.induct)
  case (root t)
  from root(2) root(1) show ?case by (cases rule: depthIn.cases) auto
next
  case (orphan t p)
  from orphan(3) orphan(1,2) show ?case by (cases rule: depthIn.cases) auto
next
  case (deeper t p a k)
  from deeper(5) deeper(1,2) deeper(4) show ?case by (cases rule: depthIn.cases) auto
qed

lemma depthIn_loop:
  "depthIn allTasks t k \<Longrightarrow> k < n \<Longrightarrow> getTaskDepth_loop n allTasks depth t = Some (depth + k)"
proof (induction arbitrary: n depth rule: depthIn.induct)
  case (root t)
  then show ?case by (cases n) auto
next
  case (orphan t p)
  then show ?case by (cases n) auto
next
  case (deeper t p a k)
  then obtain m where n: "n = Suc m" "k < m" by (cases n) auto
  from deeper.IH[OF n(2), of "depth + 1"] show ?case
    using deeper.hyps(1,2) n(1) by simp
qed

lemma depthIn_sync:
  "depthIn allTasks t k \<Longrightarrow> k < n \<Longrightarrow> getTaskDepthSync n t allTasks = Some k"
  using depthIn_loop[of allTasks t k n 0] by (simp add: getTaskDepthSync_def)

lemma addAncestors_returns:
  "getTaskDepth_loop n allTasks depth t \<noteq> None \<Longrightarrow> addAncestors n allTasks rs t add \<noteq> None"
proof (induction n arbitrary: depth t add)
  case 0
  then show ?case by simp
next
  case (Suc n)
  show ?case
  proof (cases "parentTaskId t")
    case None
    then show ?thesis by simp
  next
    case (Some p)
    show ?thesis
    proof (cases "getTaskById allTasks p")
      case None
      then show ?thesis using Some by (simp add: Let_def)
    next
      case (Some a)
      then have "getTaskDepth_loop n allTasks (depth + 1) a \<noteq> None"
        using Suc.prems \<open>parentTaskId t = Some p\<close> by simp
      from Suc.IH[OF this] show ?thesis
        using Some \<open>parentTaskId t = Some p\<close> by (simp add: Let_def)
    qed
  qed
qed

lemma addDescendants_returns:
  "heightWithin allTasks cs n \<Longrightarrow> addDescendants n allTasks rs cs add \<noteq> None"
proof (induction arbitrary: add rule: heightWithin.induct)
  case (none h)
  show ?case by simp
next
  case (missing c cs h)
  then show ?case by (simp add: Let_def)
next
  case (found c ch h cs)
  let ?add1 = "if c \<notin> set rs then addId c add else add"
  from found.IH(1)[of ?add1] obtain add2 where
    a2: "addDescendants h allTasks rs (childTaskIds ch) ?add1 = Some add2" by auto
  from found.IH(2)[of add2] show ?case
    using found.hyps(1) a2 by (simp add: Let_def)
qed

lemma addFamilies_returns:
  assumes "\<forall>m \<in> set ms. (\<exists>k<n. depthIn allTasks m k) \<and> heightWithin allTasks (childTaskIds m) n"
  shows "addFamilies n allTasks rs ms add \<noteq> None"
  using assms
proof (induction ms arbitrary: add)
  case Nil
  then show ?case by simp
next
  case (Cons m ms)
  then obtain k where k: "k < n" "depthIn allTasks m k"
    and h: "heightWithin allTasks (childTaskIds m) n" by auto
  have "getTaskDepth_loop n allTasks 0 m \<noteq> None" using depthIn_loop[OF k(2) k(1), of 0] by simp
  from addAncestors_returns[OF this, of rs add] obtain a1 where
    a1: "addAncestors n allTasks rs m add = Some a1" by auto
  from addDescendants_returns[OF h, of rs a1] obtain a2 where
    a2: "addDescendants n allTasks rs (childTaskIds m) a1 = Some a2" by auto
  show ?case using a1 a2 Cons.IH[of a2] Cons.prems by simp
qed

lemma withDepths_returns:
  assumes "\<forall>t \<in> set ts. \<exists>k<n. depthIn allTasks t k"
  shows "\<exists>keyed. withDepths n allTasks ts = Some keyed \<and> map snd keyed = ts \<and>
           (\<forall>x \<in> set keyed. depthIn allTasks (snd x) (fst x))"
  using assms
proof (induction ts)
  case Nil
  then show ?case by simp
next
  case (Cons t ts)
  then obtain keyed where "withDepths n allTasks ts = Some keyed" "map snd keyed = ts"
    "\<forall>x \<in> set keyed. depthIn allTasks (snd x) (fst x)" by auto
  moreover obtain k where "k < n" "depthIn allTasks t k" using Cons.prems by auto
  moreover from this have "getTaskDepthSync n t allTasks = Some k" using depthIn_sync by blast
  ultimately show ?case by auto
qed

subsection \<open>The sort\<close>

lemma compareTasks_le:
  "compareTasks a b \<le> 0 \<longleftrightarrow>
     fst a < fst b \<or> (fst a = fst b \<and> task_id (snd a) \<le> task_id (snd b))"
  by (auto simp: compareTasks_def)

lemma set_insertTask: "set (insertTask x ys) = insert x (set ys)"
  by (induction ys) auto

lemma sorted_insertTask:
  "sorted_wrt (\<lambda>a b. compareTasks a b \<le> 0) ys \<Longrightarrow>
   sorted_wrt (\<lambda>a b. compareTasks a b \<le> 0) (insertTask x ys)"
proof (induction ys)
  case Nil
  then show ?case by simp
next
  case (Cons y ys)
  show ?case
  proof (cases "compareTasks x y \<le> 0")
    case True
    then have "\<forall>z \<in> set ys. compareTasks x z \<le> 0"
      using Cons.prems by (auto simp: compareTasks_le)
    then show ?thesis using True Cons.prems by simp
  next
    case False
    then have "compareTasks y x \<le> 0" by (auto simp: compareTasks_le)
    then show ?thesis using False Cons by (auto simp: set_insertTask)
  qed
qed

lemma ids_insertTask:
  "distinct (map (\<lambda>a. task_id (snd a)) (insertTask x ys)) \<longleftrightarrow>
     distinct (map (\<lambda>a. task_id (snd a)) (x # ys))"
  by (induction ys) (auto simp: set_insertTask)

lemma sortTasks_props:
  "set (sortTasks xs) = set xs \<and>
   sorted_wrt (\<lambda>a b. compareTasks a b \<le> 0) (sortTasks xs) \<and>
   (distinct (map (\<lambda>a. task_id (snd a)) xs) \<longrightarrow> distinct (map (\<lambda>a. task_id (snd a)) (sortTasks xs)))"
proof (induction xs)
  case Nil
  show ?case by (simp add: sortTasks_def)
next
  case (Cons x xs)
  have unfold: "sortTasks (x # xs) = insertTask x (sortTasks xs)" by (simp add: sortTasks_def)
  show ?case unfolding unfold
    using Cons sorted_insertTask[of "sortTasks xs" x] ids_insertTask[of x "sortTasks xs"]
    by (auto simp: set_insertTask)
qed

lemma sorted_wrt_strict:
  "sorted_wrt P xs \<Longrightarrow> distinct (map g xs) \<Longrightarrow> sorted_wrt (\<lambda>a b. P a b \<and> g a \<noteq> g b) xs"
  by (induction xs) auto

subsection \<open>Lookups in a list with distinct ids\<close>

lemma getTaskById_mem: "getTaskById xs c = Some x \<Longrightarrow> x \<in> set xs"
  by (auto simp: getTaskById_def find_Some_iff)

lemma getTaskById_distinct:
  "distinct (map task_id xs) \<Longrightarrow> t \<in> set xs \<Longrightarrow> getTaskById xs (task_id t) = Some t"
  by (induction xs) (auto simp: getTaskById_def)

lemma ids_map_filter:
  "map task_id (List.map_filter (getTaskById allTasks) add) =
     filter (\<lambda>c. getTaskById allTasks c \<noteq> None) add"
proof (induction add)
  case Nil
  show ?case by (simp add: List.map_filter_simps)
next
  case (Cons c add)
  then show ?case
    by (cases "getTaskById allTasks c") (auto simp: List.map_filter_simps dest: getTaskById_id)
qed

lemma set_map_filter:
  "set (List.map_filter (getTaskById allTasks) add) =
     {x. \<exists>c \<in> set add. getTaskById allTasks c = Some x}"
proof (induction add)
  case Nil
  show ?case by (simp add: List.map_filter_simps)
next
  case (Cons c add)
  then show ?case
    by (cases "getTaskById allTasks c") (auto simp: List.map_filter_simps)
qed

subsection \<open>Examples\<close>

lemma orphanChain_reached:
  "map_option tasks
     (restored (deletedWith
        (created (created (created (created (Some emptyStore) (newTask ''A'' None))
           (newTask ''B'' (Some 1))) (newTask ''C'' (Some 2))) (newTask ''D'' (Some 1)))
        2 True) 3) = Some orphanChain"
  by code_simp

lemma mixedTasks_reached:
  "map_option tasks
     (updated (updated
        (created (created (created (Some emptyStore) (newTask ''A'' None)) (newTask ''B'' None))
           (newTask ''C'' None))
        1 (setParent (Some 3))) 2 (setStatus Completed)) = Some mixedTasks"
  by code_simp

text \<open>
  The example of the specification: when only the grandchild has the project \<open>X\<close>, the
  result is grandparent, parent, grandchild.
\<close>

lemma filterTasks_grandchild_example:
  "filterTasks asciiLowerCase 5 projectChain (projectFilter ''X'') =
     Some [mkTask 1 ''A'' NotStarted (Some Medium) None [2] False,
           mkTask 2 ''B'' NotStarted (Some Medium) (Some 1) [3] False,
           taskC\<lparr>project := Some (js ''X'')\<rparr>] \<and>
   filter (matchesFilters asciiLowerCase (projectFilter ''X'')) projectChain =
     [taskC\<lparr>project := Some (js ''X'')\<rparr>]"
  by code_simp

text \<open>
  On the store left by \<open>updateTask(1, {parentTaskId: 1})\<close> the walk up from task 1 never
  ends.
\<close>

lemma addAncestors_selfParent:
  "addAncestors n (tasks storeA_selfParent) rs (taskA\<lparr>parentTaskId := Some 1\<rparr>) add = None"
proof (induction n arbitrary: add)
  case 0
  show ?case by simp
next
  case (Suc n)
  have p: "parentTaskId (taskA\<lparr>parentTaskId := Some 1\<rparr>) = Some 1" by simp
  have g: "getTaskById (tasks storeA_selfParent) 1 = Some (taskA\<lparr>parentTaskId := Some 1\<rparr>)"
    by code_simp
  show ?case using Suc p g by (simp add: Let_def)
qed

lemma filterTasks_selfParent:
  "filterTasks toLowerCase n (tasks storeA_selfParent) noFilters = None"
proof -
  let ?t = "taskA\<lparr>parentTaskId := Some 1\<rparr>"
  have all: "getAllTasks (tasks storeA_selfParent) False = tasks storeA_selfParent" by code_simp
  have one: "tasks storeA_selfParent = [?t]" by (simp add: storeA_selfParent_def)
  have m: "matchesFilters toLowerCase noFilters ?t" by (simp add: matchesFilters_def noFilters_def)
  have "filter (matchesFilters toLowerCase noFilters) (tasks storeA_selfParent) = [?t]"
    using m one by simp
  then show ?thesis
    unfolding filterTasks_def all Let_def using addAncestors_selfParent by simp
qed

subsection \<open>The statement\<close>

text \<open>
  C7, as the specification states it, fails in four ways.

  \<^item> The predicates on project, priority and status are not equality tests: both sides go
    through \<open>toLowerCase\<close> first. The single task with project \<open>X\<close> is returned for the
    predicate \<open>project = x\<close>, which it does not satisfy as an equality.
  \<^item> The walk up the \<open>parentTaskId\<close> chain looks each parent up in the snapshot and ends at
    the first one that the snapshot does not hold. In \<open>orphanChain\<close> the parent chain of
    task 3 is 2, 1; task 2 is deleted and task 1 is not. For the predicate \<open>id = 3\<close> the
    result is task 3 alone, without its ancestor 1.
  \<^item> The depth used for the order is counted along the same walk: a task whose parent the
    snapshot does not hold counts as depth 1. In \<open>orphanChain\<close> task 3 is at depth 2 and
    task 4 at depth 1 (\<open>getTaskDepth\<close>), and for the predicate \<open>id \<in> {3, 4}\<close> the result is
    1, 3, 4: task 3 comes before task 4.
  \<^item> On a snapshot with a cycle \<open>filterTasks\<close> does not return. After create A and
    \<open>updateTask(1, {parentTaskId: 1})\<close>, both successful, the filter without predicates
    exceeds every bound on the number of steps.
\<close>

theorem filterTasks_not_as_stated:
  "filterTasks asciiLowerCase 5 projectRoot (projectFilter ''x'') =
     Some [taskA\<lparr>project := Some (js ''X'')\<rparr>] \<and>
   \<not> matchesAsStated (projectFilter ''x'') (taskA\<lparr>project := Some (js ''X'')\<rparr>) \<and>
   map_option (map task_id) (filterTasks asciiLowerCase 5 orphanChain (idFilterOf [3])) =
     Some [3] \<and>
   map (\<lambda>t. (task_id t, parentTaskId t, deleted t)) orphanChain =
     [(1, None, False), (2, Some 1, True), (3, Some 2, False), (4, Some 1, False)] \<and>
   map_option (map task_id) (filterTasks asciiLowerCase 5 orphanChain (idFilterOf [3, 4])) =
     Some [1, 3, 4] \<and>
   map (getTaskDepth 5 orphanChain) orphanChain = [Some 0, Some 1, Some 2, Some 1] \<and>
   updated (created (Some emptyStore) (newTask ''A'' None)) 1 (setParent (Some 1)) =
     Some storeA_selfParent \<and>
   (\<forall>n. filterTasks asciiLowerCase n (tasks storeA_selfParent) noFilters = None)"
proof -
  have a: "filterTasks asciiLowerCase 5 projectRoot (projectFilter ''x'') =
     Some [taskA\<lparr>project := Some (js ''X'')\<rparr>]" by code_simp
  have b: "\<not> matchesAsStated (projectFilter ''x'') (taskA\<lparr>project := Some (js ''X'')\<rparr>)"
    by code_simp
  have c: "map_option (map task_id) (filterTasks asciiLowerCase 5 orphanChain (idFilterOf [3])) =
     Some [3]" by code_simp
  have d: "map (\<lambda>t. (task_id t, parentTaskId t, deleted t)) orphanChain =
     [(1, None, False), (2, Some 1, True), (3, Some 2, False), (4, Some 1, False)]"
    by code_simp
  have e: "map_option (map task_id) (filterTasks asciiLowerCase 5 orphanChain (idFilterOf [3, 4])) =
     Some [1, 3, 4]" by code_simp
  have f: "map (getTaskDepth 5 orphanChain) orphanChain = [Some 0, Some 1, Some 2, Some 1]"
    by code_simp
  have g: "updated (created (Some emptyStore) (newTask ''A'' None)) 1 (setParent (Some 1)) =
     Some storeA_selfParent" by code_simp
  have h: "\<forall>n. filterTasks asciiLowerCase n (tasks storeA_selfParent) noFilters = None"
    using filterTasks_selfParent by blast
  show ?thesis using a b c d e f g h by blast
qed

text \<open>
  C7, amended. Take the snapshot of the tasks that are not deleted, in a store where no two
  tasks share an id, and let every chain of parents in the snapshot end within \<open>n\<close> steps
  and every tree of children be at most \<open>n\<close> levels deep (no cycle). A task satisfies a
  set of predicates over id, project, priority and status when, for each predicate given:
  its id is the given number, or one of the given numbers; its project is present, not
  empty, and equal to the given string after \<open>toLowerCase\<close> on both sides; its priority is
  present and equal to the given string after \<open>toLowerCase\<close> on both sides; its status is
  equal to the given string after \<open>toLowerCase\<close> on both sides; or, for a negated
  predicate, the opposite. Then \<open>filterTasks\<close> returns, whatever function \<open>toLowerCase\<close>
  is; the tasks it returns are exactly the tasks of the snapshot that satisfy the
  predicates, the tasks met on the walk up from each of them along \<open>parentTaskId\<close> (the walk
  ends at the first parent that the snapshot does not hold) and the tasks met on the walk
  down from each of them along \<open>childTaskIds\<close> (a child that the snapshot does not hold is
  passed over, with what is below it); no task is returned twice; and the result is in
  ascending order of depth, and of id among tasks of equal depth, where the depth of a
  task is 0 if it has no parent, 1 if the snapshot does not hold its parent, and one more
  than the depth of its parent otherwise.
\<close>

theorem filterTasks_family_closure:
  assumes keys: "distinct (map task_id d)"
      and up: "\<forall>t \<in> set (getAllTasks d False). \<exists>k<n. depthIn (getAllTasks d False) t k"
      and down: "\<forall>t \<in> set (getAllTasks d False).
                   heightWithin (getAllTasks d False) (childTaskIds t) n"
  shows "\<exists>r. filterTasks toLowerCase n d f = Some r \<and>
             set r = family toLowerCase (getAllTasks d False) f \<and>
             distinct (map task_id r) \<and>
             sorted_wrt (sortsBefore (getAllTasks d False)) r"
proof -
  let ?all = "getAllTasks d False"
  let ?ms = "filter (matchesFilters toLowerCase f) ?all"
  let ?rs = "map task_id ?ms"
  have dall: "distinct (map task_id ?all)"
    using keys by (simp add: getAllTasks_def distinct_map_filter)
  have dms: "distinct ?rs" using dall by (simp add: distinct_map_filter)
  have finms: "\<forall>m \<in> set ?ms. (\<exists>k<n. depthIn ?all m k) \<and> heightWithin ?all (childTaskIds m) n"
    using up down by simp
  from addFamilies_returns[OF finms, of ?rs "[]"] obtain add where
    add: "addFamilies n ?all ?rs ?ms [] = Some add" by auto
  from addFamilies_set[OF add] have
    sadd: "set add =
      (\<Union>m \<in> set ?ms. parentIds ?all m \<union> childIdsBelow ?all (childTaskIds m)) - set ?rs"
    and dadd: "distinct add" by auto
  let ?extra = "List.map_filter (getTaskById ?all) add"
  let ?final = "?ms @ ?extra"
  have extra_ids: "map task_id ?extra = filter (\<lambda>c. getTaskById ?all c \<noteq> None) add"
    by (rule ids_map_filter)
  have disj: "set add \<inter> set ?rs = {}" using sadd by blast
  have dextra: "distinct (map task_id ?extra)" unfolding extra_ids using dadd by simp
  have "set (map task_id ?extra) \<subseteq> set add" unfolding extra_ids by auto
  then have disj2: "set ?rs \<inter> set (map task_id ?extra) = {}" using disj by blast
  have dfinal: "distinct (map task_id ?final)"
    using dms dextra disj2 by (simp only: map_append distinct_append)
  have final_all: "set ?final \<subseteq> set ?all"
    by (auto simp: set_map_filter dest: getTaskById_mem)
  have ms_iff: "m \<in> set ?ms \<longleftrightarrow> m \<in> set ?all \<and> satisfies toLowerCase f m" for m
    by (simp add: matchesFilters_iff)
  have sfinal: "set ?final = family toLowerCase ?all f"
  proof (intro equalityI subsetI)
    fix x assume "x \<in> set ?final"
    then consider "x \<in> set ?ms"
      | c where "c \<in> set add" "getTaskById ?all c = Some x"
      by (auto simp: set_map_filter)
    then show "x \<in> family toLowerCase ?all f"
    proof cases
      case 1
      then have "x \<in> set ?all \<and> satisfies toLowerCase f x" by (simp only: ms_iff)
      then show ?thesis by (auto simp: family_def)
    next
      case 2
      then obtain m where m: "m \<in> set ?ms"
        and c: "c \<in> parentIds ?all m \<or> c \<in> childIdsBelow ?all (childTaskIds m)"
        using sadd by auto
      from c have "ancestorIn ?all m x \<or> descendantIn ?all (childTaskIds m) x"
        using 2(2) parentIds_found[of ?all m] childIdsBelow_found[of ?all "childTaskIds m"]
        by blast
      moreover from m have "m \<in> set ?all \<and> satisfies toLowerCase f m" by (simp only: ms_iff)
      ultimately show ?thesis by (auto simp: family_def)
    qed
  next
    fix x assume "x \<in> family toLowerCase ?all f"
    then obtain m where m0: "m \<in> set ?all" "satisfies toLowerCase f m"
      and x: "x = m \<or> ancestorIn ?all m x \<or> descendantIn ?all (childTaskIds m) x"
      by (auto simp: family_def)
    from m0 have m: "m \<in> set ?ms" by (simp only: ms_iff)
    show "x \<in> set ?final"
    proof (cases "x = m")
      case True
      then show ?thesis using m by simp
    next
      case False
      then have "ancestorIn ?all m x \<or> descendantIn ?all (childTaskIds m) x" using x by simp
      then obtain c where c: "c \<in> parentIds ?all m \<or> c \<in> childIdsBelow ?all (childTaskIds m)"
        and g: "getTaskById ?all c = Some x"
        using parentIds_found[of ?all m] childIdsBelow_found[of ?all "childTaskIds m"]
        by blast
      show ?thesis
      proof (cases "c \<in> set ?rs")
        case True
        then obtain m' where m': "m' \<in> set ?ms" "task_id m' = c" by auto
        then have "getTaskById ?all c = Some m'"
          using getTaskById_distinct[OF dall, of m'] by auto
        then have "x = m'" using g by simp
        then show ?thesis using m' by simp
      next
        case False
        then have "c \<in> set add" using sadd c m by blast
        then show ?thesis using g by (auto simp: set_map_filter)
      qed
    qed
  qed
  have "\<forall>t \<in> set ?final. \<exists>k<n. depthIn ?all t k"
    using up final_all by blast
  from withDepths_returns[OF this] obtain keyed where
    keyed: "withDepths n ?all ?final = Some keyed" and snd: "map snd keyed = ?final"
    and dep: "\<forall>x \<in> set keyed. depthIn ?all (snd x) (fst x)" by blast
  let ?r = "map snd (sortTasks keyed)"
  have res: "filterTasks toLowerCase n d f = Some ?r"
    using add keyed by (simp add: filterTasks_def Let_def)
  have "map (\<lambda>a. task_id (snd a)) keyed = map task_id (map snd keyed)" by simp
  then have idk: "map (\<lambda>a. task_id (snd a)) keyed = map task_id ?final"
    by (simp only: snd)
  have dk: "distinct (map (\<lambda>a. task_id (snd a)) keyed)"
    by (simp only: idk dfinal)
  have props: "set (sortTasks keyed) = set keyed"
    "sorted_wrt (\<lambda>a b. compareTasks a b \<le> 0) (sortTasks keyed)"
    "distinct (map (\<lambda>a. task_id (snd a)) (sortTasks keyed))"
    using sortTasks_props[of keyed] dk by blast+
  have sr: "set ?r = set ?final"
  proof -
    have "set ?r = snd ` set keyed" using props(1) by simp
    also have "\<dots> = set (map snd keyed)" by simp
    finally show ?thesis using snd by simp
  qed
  have dr: "distinct (map task_id ?r)"
    using props(3) by (simp add: comp_def)
  have "sorted_wrt (\<lambda>a b. compareTasks a b \<le> 0 \<and> task_id (snd a) \<noteq> task_id (snd b))
          (sortTasks keyed)"
    using sorted_wrt_strict[OF props(2,3)] .
  then have "sorted_wrt (\<lambda>a b. sortsBefore ?all (snd a) (snd b)) (sortTasks keyed)"
  proof (rule sorted_wrt_mono_rel[rotated])
    fix a b assume "a \<in> set (sortTasks keyed)" "b \<in> set (sortTasks keyed)"
      and c: "compareTasks a b \<le> 0 \<and> task_id (snd a) \<noteq> task_id (snd b)"
    then have "depthIn ?all (snd a) (fst a)" "depthIn ?all (snd b) (fst b)"
      using dep props(1) by auto
    moreover have "fst a < fst b \<or> (fst a = fst b \<and> task_id (snd a) < task_id (snd b))"
      using c by (auto simp: compareTasks_le)
    ultimately show "sortsBefore ?all (snd a) (snd b)"
      unfolding sortsBefore_def by blast
  qed
  then have sorted: "sorted_wrt (sortsBefore ?all) ?r"
    by (simp add: sorted_wrt_map)
  show ?thesis using res sr sfinal dr sorted by auto
qed

theorem filterTasks_family_closure_witness:
  "distinct (map task_id mixedTasks) \<and>
   getAllTasks mixedTasks False = mixedTasks \<and>
   depthIn mixedTasks (mkTask 1 ''A'' NotStarted (Some Medium) (Some 3) [] False) 1 \<and>
   depthIn mixedTasks (mkTask 2 ''B'' Completed None None [] False) 0 \<and>
   depthIn mixedTasks (mkTask 3 ''C'' NotStarted (Some Medium) None [1] False) 0 \<and>
   heightWithin mixedTasks [] 5 \<and>
   heightWithin mixedTasks [1] 5 \<and>
   filterTasks asciiLowerCase 5 mixedTasks mixedFilter =
     Some [mkTask 3 ''C'' NotStarted (Some Medium) None [1] False,
           mkTask 1 ''A'' NotStarted (Some Medium) (Some 3) [] False] \<and>
   family asciiLowerCase mixedTasks mixedFilter =
     {mkTask 3 ''C'' NotStarted (Some Medium) None [1] False,
      mkTask 1 ''A'' NotStarted (Some Medium) (Some 3) [] False} \<and>
   sortsBefore mixedTasks (mkTask 3 ''C'' NotStarted (Some Medium) None [1] False)
     (mkTask 1 ''A'' NotStarted (Some Medium) (Some 3) [] False)"
proof -
  let ?a = "mkTask 1 ''A'' NotStarted (Some Medium) (Some 3) [] False"
  let ?b = "mkTask 2 ''B'' Completed None None [] False"
  let ?c = "mkTask 3 ''C'' NotStarted (Some Medium) None [1] False"
  have h1: "distinct (map task_id mixedTasks)" by code_simp
  have all: "getAllTasks mixedTasks False = mixedTasks" by code_simp
  have mem: "set mixedTasks = {?a, ?b, ?c}" by (simp add: mixedTasks_def)
  have pa: "parentTaskId ?a = Some 3" by code_simp
  have pb: "parentTaskId ?b = None" by code_simp
  have pc: "parentTaskId ?c = None" by code_simp
  have ka: "childTaskIds ?a = []" by code_simp
  have kb: "childTaskIds ?b = []" by code_simp
  have kc: "childTaskIds ?c = [1]" by code_simp
  have g1: "getTaskById mixedTasks 1 = Some ?a" by code_simp
  have g3: "getTaskById mixedTasks 3 = Some ?c" by code_simp
  have db: "depthIn mixedTasks ?b 0" using pb by (rule depthIn.root)
  have dc: "depthIn mixedTasks ?c 0" using pc by (rule depthIn.root)
  have "depthIn mixedTasks ?a (Suc 0)" using pa g3 dc by (rule depthIn.deeper)
  then have da: "depthIn mixedTasks ?a 1" by simp
  have e4: "heightWithin mixedTasks [] 4" by (rule heightWithin.none)
  have e5: "heightWithin mixedTasks [] 5" by (rule heightWithin.none)
  have "heightWithin mixedTasks (childTaskIds ?a) 4" using e4 ka by simp
  then have "heightWithin mixedTasks [1] (Suc 4)"
    using g1 e5 by (intro heightWithin.found[of mixedTasks 1 ?a 4 "[]"]) simp_all
  then have k5: "heightWithin mixedTasks [1] 5" by simp
  have up: "\<forall>t \<in> set (getAllTasks mixedTasks False).
              \<exists>k<5. depthIn (getAllTasks mixedTasks False) t k"
  proof
    fix t assume "t \<in> set (getAllTasks mixedTasks False)"
    then have "t = ?a \<or> t = ?b \<or> t = ?c" using all mem by simp
    then have "depthIn mixedTasks t 1 \<or> depthIn mixedTasks t 0" using da db dc by blast
    then show "\<exists>k<5. depthIn (getAllTasks mixedTasks False) t k"
      unfolding all by (elim disjE) (rule exI[of _ 1], simp, rule exI[of _ 0], simp)
  qed
  have down: "\<forall>t \<in> set (getAllTasks mixedTasks False).
                heightWithin (getAllTasks mixedTasks False) (childTaskIds t) 5"
  proof
    fix t assume "t \<in> set (getAllTasks mixedTasks False)"
    then have "t = ?a \<or> t = ?b \<or> t = ?c" using all mem by simp
    then have "childTaskIds t = [] \<or> childTaskIds t = [1]" using ka kb kc by auto
    then show "heightWithin (getAllTasks mixedTasks False) (childTaskIds t) 5"
      unfolding all using e5 k5 by auto
  qed
  have r: "filterTasks asciiLowerCase 5 mixedTasks mixedFilter = Some [?c, ?a]" by code_simp
  from filterTasks_family_closure[OF h1 up down, of asciiLowerCase mixedFilter] r
  have "set [?c, ?a] = family asciiLowerCase (getAllTasks mixedTasks False) mixedFilter"
    and "sorted_wrt (sortsBefore (getAllTasks mixedTasks False)) [?c, ?a]" by auto
  then have fam: "family asciiLowerCase mixedTasks mixedFilter = {?c, ?a}"
    and ord: "sortsBefore mixedTasks ?c ?a" unfolding all by auto
  show ?thesis using h1 all da db dc e5 k5 r fam ord by blast
qed

section \<open>Priority and status\<close>

lemma createTask_success:
  assumes "createTask n now s td = Some (Inr c, s1)"
  shows "priority c = Some (case d_priority td of None \<Rightarrow> Medium | Some v \<Rightarrow> v)"
  using assms
  by (auto simp: createTask_def Let_def getNextId_def split: option.splits if_splits prod.splits)

text \<open>
  C8, as the specification states it, fails: \<open>updateTask\<close> removes the priority of a task
  that becomes \<open>Completed\<close> and never gives one back. A task that is completed and then
  reopened has status \<open>InProgress\<close> and no priority.
\<close>

theorem reopened_task_has_no_priority:
  "map_option rows
     (updated (updated (Some storeA) 1 (setStatus Completed)) 1 (setStatus InProgress)) =
   Some [(1, None, [], InProgress, None, False)]"
  by code_simp

text \<open>
  C8, amended. \<open>createTask\<close> gives the new task the priority asked for, or \<open>Medium\<close>. After
  a successful \<open>updateTask\<close> the task is stored as returned; its status is the one the
  updates give, or the one it had; its priority is absent when that status is \<open>Completed\<close>,
  and otherwise it is the priority the updates give, or the one the task had before the
  call, absent or not.
\<close>

theorem priority_after_create_and_update:
  "(createTask m now0 s0 td = Some (Inr c, s1) \<longrightarrow>
      priority c = Some (case d_priority td of None \<Rightarrow> Medium | Some v \<Rightarrow> v)) \<and>
   (updateTask n now s k u = Some (Inr t', s') \<and> getTaskById (tasks s) k = Some t \<longrightarrow>
      getTaskById (tasks s') k = Some t' \<and>
      status t' = (case u_status u of None \<Rightarrow> status t | Some v \<Rightarrow> v) \<and>
      priority t' = (if status t' = Completed then None
                     else (case u_priority u of None \<Rightarrow> priority t | Some v \<Rightarrow> v)))"
proof (intro conjI impI)
  assume "createTask m now0 s0 td = Some (Inr c, s1)"
  then show "priority c = Some (case d_priority td of None \<Rightarrow> Medium | Some v \<Rightarrow> v)"
    by (rule createTask_success)
next
  assume a: "updateTask n now s k u = Some (Inr t', s') \<and> getTaskById (tasks s) k = Some t"
  then show "getTaskById (tasks s') k = Some t'" using updateTask_stored by blast
  from a updateTask_success[of n now s k u t' s'] have t': "t' = updatedTask t u" by auto
  show "status t' = (case u_status u of None \<Rightarrow> status t | Some v \<Rightarrow> v)"
    unfolding t' by (simp add: updatedTask_def applyUpdates_def Let_def)
  show "priority t' = (if status t' = Completed then None
                     else (case u_priority u of None \<Rightarrow> priority t | Some v \<Rightarrow> v))"
    unfolding t' by (simp add: updatedTask_def applyUpdates_def Let_def)
qed

theorem priority_after_create_and_update_witness:
  "createTask 5 0 emptyStore (newTask ''A'' None) = Some (Inr taskA, storeA) \<and>
   priority taskA = Some Medium \<and>
   updateTask 5 0 storeA_completed 1 (setStatus InProgress) =
     Some (Inr (taskA\<lparr>status := InProgress, priority := None\<rparr>), storeA_reopened) \<and>
   getTaskById (tasks storeA_completed) 1 = Some (taskA\<lparr>status := Completed, priority := None\<rparr>) \<and>
   getTaskById (tasks storeA_reopened) 1 = Some (taskA\<lparr>status := InProgress, priority := None\<rparr>) \<and>
   status (taskA\<lparr>status := InProgress, priority := None\<rparr>) = InProgress \<and>
   priority (taskA\<lparr>status := InProgress, priority := None\<rparr>) = None"
proof -
  have h1: "createTask 5 0 emptyStore (newTask ''A'' None) = Some (Inr taskA, storeA)"
    by code_simp
  have h2: "updateTask 5 0 storeA_completed 1 (setStatus InProgress) =
     Some (Inr (taskA\<lparr>status := InProgress, priority := None\<rparr>), storeA_reopened)"
    by code_simp
  have h3: "getTaskById (tasks storeA_completed) 1 =
     Some (taskA\<lparr>status := Completed, priority := None\<rparr>)" by code_simp
  have e1: "d_priority (newTask ''A'' None) = None" by code_simp
  have e2: "u_status (setStatus InProgress) = Some InProgress" by code_simp
  have e3: "u_priority (setStatus InProgress) = None" by code_simp
  from priority_after_create_and_update
         [where m = 5 and ?now0.0 = 0 and ?s0.0 = emptyStore and td = "newTask ''A'' None"
            and c = taskA and ?s1.0 = storeA and n = 5 and now = 0 and s = storeA_completed
            and k = 1 and u = "setStatus InProgress"
            and t' = "taskA\<lparr>status := InProgress, priority := None\<rparr>"
            and s' = storeA_reopened
            and t = "taskA\<lparr>status := Completed, priority := None\<rparr>"]
  show ?thesis using h1 h2 h3 e1 e2 e3 by simp
qed

section \<open>The bounded history\<close>

lemma recordAction_stacks:
  "undoStack (recordAction s a) =
     (if length (undoStack s) \<ge> maxHistorySize then tl (undoStack s @ [a]) else undoStack s @ [a])"
  "redoStack (recordAction s a) = []"
  "tasks (recordAction s a) = tasks s"
  by (auto simp: recordAction_def Let_def)

lemma recordAction_takeLast:
  assumes "length (undoStack s) \<le> maxHistorySize"
  shows "undoStack (recordAction s a) =
           drop (length (undoStack s @ [a]) - maxHistorySize) (undoStack s @ [a])"
proof (cases "length (undoStack s) = maxHistorySize")
  case True
  then show ?thesis by (cases "undoStack s") (auto simp: recordAction_stacks maxHistorySize_def)
next
  case False
  then show ?thesis using assms by (simp add: recordAction_stacks)
qed

lemma recordAction_length:
  assumes "length (undoStack s) \<le> maxHistorySize"
  shows "length (undoStack (recordAction s a)) \<le> maxHistorySize"
  using assms by (auto simp: recordAction_stacks maxHistorySize_def)

lemma recordAction_last: "last (undoStack (recordAction s a)) = a"
  by (cases "undoStack s") (auto simp: recordAction_stacks maxHistorySize_def last_tl)

lemma drop_drop_snoc:
  assumes "length xs \<le> (c::nat)" "0 < c"
  shows "drop (length (drop (length (xs @ [a]) - c) (xs @ [a]) @ ys) - c)
              (drop (length (xs @ [a]) - c) (xs @ [a]) @ ys) =
         drop (length (xs @ a # ys) - c) (xs @ a # ys)"
proof (cases "length xs = c")
  case True
  then show ?thesis using assms(2) by (cases xs) auto
next
  case False
  then show ?thesis using assms by auto
qed

lemma db_rel_exists:
  "db_rel R d d' \<Longrightarrow> getTaskById d x \<noteq> None \<Longrightarrow> getTaskById d' x \<noteq> None"
  using db_rel_Some by fastforce

lemma saveTask_exists:
  "getTaskById d x \<noteq> None \<Longrightarrow> getTaskById (saveTask d t) x \<noteq> None"
  by (simp add: getTaskById_saveTask)

lemma updateTask_history:
  assumes "updateTask n now s k u = Some (Inr t', s')"
  shows "\<exists>before after.
           undoStack s' = undoStack (recordAction s (ActModify k before after now)) \<and>
           redoStack s' = []"
proof -
  from updateTask_success[OF assms] obtain t where t: "getTaskById (tasks s) k = Some t"
    and t': "t' = updatedTask t u" by blast
  have id: "task_id t' = k" using getTaskById_id[OF t] t' by (simp add: updatedTask_def Let_def)
  have "undoStack s' = undoStack (recordAction s (ActModify k (stateOf t) (stateOf t') now)) \<and>
        redoStack s' = []"
    using assms t id
    by (auto simp: updateTask_def updatedTask_def Let_def recordAction_def
             split: option.splits prod.splits if_splits)
  then show ?thesis by blast
qed

lemma updateTask_exists:
  assumes "updateTask n now s k u = Some (Inr t', s')" "getTaskById (tasks s) x \<noteq> None"
  shows "getTaskById (tasks s') x \<noteq> None"
proof -
  from updateTask_success[OF assms(1)] obtain t d1 d2 where
    rep: "updateTask_reparent n (tasks s) t k u = Some (None, d1)"
    and cad: "(if status t' = Completed then completeAllDescendants n d1 (childTaskIds t')
               else Some d1) = Some d2"
    and s': "tasks s' = checkAndCompleteParent (saveTask d2 t') t'" by blast
  have 1: "getTaskById d1 x \<noteq> None"
    using db_rel_exists[OF updateTask_reparent_relinked[OF rep] assms(2)] .
  have "db_cascaded d1 d2"
    using cad completeAllDescendants_post[of n d1 "childTaskIds t'" d2]
    by (auto simp: cascade_post_def db_cascaded_refl split: if_splits)
  then have 2: "getTaskById d2 x \<noteq> None" using 1 db_rel_exists by (auto simp: db_cascaded_def)
  show ?thesis unfolding s'
    using db_rel_exists[OF checkAndCompleteParent_rel saveTask_exists[OF 2]] .
qed

lemma modifiesExisting_append:
  "modifiesExisting d (xs @ ys) \<longleftrightarrow> modifiesExisting d xs \<and> modifiesExisting d ys"
  by (simp add: modifiesExisting_def)

lemma modifiesExisting_mono:
  assumes "\<And>x. getTaskById d x \<noteq> None \<Longrightarrow> getTaskById d' x \<noteq> None"
      and "modifiesExisting d as"
  shows "modifiesExisting d' as"
  using assms(2)
proof (induction as)
  case Nil
  show ?case by (simp add: modifiesExisting_def)
next
  case (Cons a as)
  then show ?case
    using assms(1) by (cases a) (auto simp: modifiesExisting_def)
qed

lemma modifiesExisting_drop: "modifiesExisting d as \<Longrightarrow> modifiesExisting d (drop i as)"
  unfolding modifiesExisting_def list_all_iff by (auto dest: in_set_dropD)

lemma updateMany_exists:
  "updateMany n s calls = Some s1 \<Longrightarrow> getTaskById (tasks s) x \<noteq> None \<Longrightarrow>
   getTaskById (tasks s1) x \<noteq> None"
proof (induction n s calls rule: updateMany.induct)
  case (1 n s)
  then show ?case by simp
next
  case (2 n s k u now calls)
  from "2.prems"(1) obtain t' s' where
    upd: "updateTask n now s k u = Some (Inr t', s')" and rest: "updateMany n s' calls = Some s1"
    by (auto split: option.splits prod.splits sum.splits)
  show ?case using "2.IH"[OF upd refl refl rest] updateTask_exists[OF upd "2.prems"(2)] by simp
qed

lemma updateMany_stack:
  "updateMany n s calls = Some s1 \<Longrightarrow> length (undoStack s) \<le> maxHistorySize \<Longrightarrow>
   length (recordedBy n s calls) = length calls \<and>
   modifiesExisting (tasks s1) (recordedBy n s calls) \<and>
   length (undoStack s1) \<le> maxHistorySize \<and>
   (calls \<noteq> [] \<longrightarrow> redoStack s1 = []) \<and>
   undoStack s1 =
     drop (length (undoStack s @ recordedBy n s calls) - maxHistorySize)
       (undoStack s @ recordedBy n s calls)"
proof (induction n s calls rule: updateMany.induct)
  case (1 n s)
  then show ?case by (simp add: modifiesExisting_def)
next
  case (2 n s k u now calls)
  from "2.prems"(1) obtain t' s' where
    upd: "updateTask n now s k u = Some (Inr t', s')" and rest: "updateMany n s' calls = Some s1"
    by (auto split: option.splits prod.splits sum.splits)
  from updateTask_history[OF upd] obtain before after where
    st: "undoStack s' = undoStack (recordAction s (ActModify k before after now))"
    and rd: "redoStack s' = []" by blast
  let ?a = "ActModify k before after now"
  have top: "last (undoStack s') = ?a" unfolding st by (rule recordAction_last)
  have len': "length (undoStack s') \<le> maxHistorySize"
    unfolding st using recordAction_length[OF "2.prems"(2)] .
  have st': "undoStack s' = drop (length (undoStack s @ [?a]) - maxHistorySize) (undoStack s @ [?a])"
    unfolding st using recordAction_takeLast[OF "2.prems"(2)] .
  note IH = "2.IH"[OF upd refl refl rest len']
  have rec: "recordedBy n s ((k, u, now) # calls) = ?a # recordedBy n s' calls"
    using upd top by simp
  have k: "getTaskById (tasks s') k \<noteq> None" using updateTask_stored[OF upd] by simp
  have k1: "getTaskById (tasks s1) k \<noteq> None" using updateMany_exists[OF rest k] .
  have redo: "redoStack s1 = []"
  proof (cases calls)
    case Nil
    then show ?thesis using rest rd by simp
  next
    case (Cons c cs)
    then show ?thesis using IH by simp
  qed
  have "undoStack s1 =
     drop (length (undoStack s @ ?a # recordedBy n s' calls) - maxHistorySize)
       (undoStack s @ ?a # recordedBy n s' calls)"
    using IH st' drop_drop_snoc[OF "2.prems"(2), of ?a "recordedBy n s' calls"]
    by (simp add: maxHistorySize_def)
  then show ?case using IH rec k1 redo by (simp add: modifiesExisting_def)
qed

lemma updateTaskWithoutHistory_ok:
  assumes "getTaskById d k = Some t"
  shows "\<exists>t1 d'. updateTaskWithoutHistory d k p = (Inr t1, d') \<and>
           (\<forall>x. getTaskById d x \<noteq> None \<longrightarrow> getTaskById d' x \<noteq> None)"
proof -
  let ?d1 = "case parentTaskId t of None \<Rightarrow> d | Some old \<Rightarrow> removeChild d old k"
  let ?d2 = "case u_parentTaskId p of
               None \<Rightarrow> d
             | Some newParentId \<Rightarrow>
                 if newParentId = parentTaskId t then d
                 else (case newParentId of
                         None \<Rightarrow> ?d1
                       | Some q \<Rightarrow>
                           (case getTaskById ?d1 q of
                              None \<Rightarrow> ?d1
                            | Some newParent \<Rightarrow> pushChild ?d1 newParent k))"
  have d1: "db_rel (relinked k) d ?d1"
    by (cases "parentTaskId t") (simp_all add: db_rel_refl relinked_refl removeChild_relinked)
  have r: "updateTaskWithoutHistory d k p = (Inr (applyUpdates t p), saveTask ?d2 (applyUpdates t p))"
    using assms by (auto simp: updateTaskWithoutHistory_def Let_def split: option.splits)
  have "db_rel (relinked k) d ?d2"
    using d1 db_relinked_trans[OF d1 pushChild_relinked]
    by (auto simp: db_rel_refl relinked_refl split: option.splits)
  then have "\<forall>x. getTaskById d x \<noteq> None \<longrightarrow>
                getTaskById (saveTask ?d2 (applyUpdates t p)) x \<noteq> None"
    using db_rel_exists saveTask_exists by blast
  then show ?thesis using r by blast
qed

lemma undo_modify:
  assumes ne: "undoStack s \<noteq> []" and ok: "modifiesExisting (tasks s) (undoStack s)"
  shows "\<exists>s'. undo now s = (Inr (last (undoStack s)), s') \<and>
           undoStack s' = butlast (undoStack s) \<and>
           redoStack s' = redoStack s @ [last (undoStack s)] \<and>
           (\<forall>x. getTaskById (tasks s) x \<noteq> None \<longrightarrow> getTaskById (tasks s') x \<noteq> None)"
proof -
  have "last (undoStack s) \<in> set (undoStack s)" using ne by simp
  then have "case last (undoStack s) of
               ActModify k before after ts \<Rightarrow> getTaskById (tasks s) k \<noteq> None
             | _ \<Rightarrow> False"
    using ok unfolding modifiesExisting_def list_all_iff by blast
  then obtain k before after ts where
    a: "last (undoStack s) = ActModify k before after ts" and k: "getTaskById (tasks s) k \<noteq> None"
    by (cases "last (undoStack s)") auto
  from k obtain t where "getTaskById (tasks s) k = Some t" by auto
  from updateTaskWithoutHistory_ok[OF this, of before] obtain t1 d' where
    r: "updateTaskWithoutHistory (tasks s) k before = (Inr t1, d')"
    and ex: "\<forall>x. getTaskById (tasks s) x \<noteq> None \<longrightarrow> getTaskById d' x \<noteq> None" by blast
  show ?thesis using ne a r ex by (simp add: undo_def undo_switch_def Let_def)
qed

lemma undoMany_ok:
  "modifiesExisting (tasks s) (undoStack s) \<Longrightarrow> m \<le> length (undoStack s) \<Longrightarrow>
   \<exists>s'. undoMany m now s = Some s' \<and>
        undoStack s' = take (length (undoStack s) - m) (undoStack s) \<and>
        redoStack s' = redoStack s @ rev (drop (length (undoStack s) - m) (undoStack s))"
proof (induction m arbitrary: s)
  case 0
  then show ?case by simp
next
  case (Suc m)
  then have ne: "undoStack s \<noteq> []" by auto
  then obtain xs y where u: "undoStack s = xs @ [y]" by (cases "undoStack s" rule: rev_cases) auto
  from undo_modify[OF ne Suc.prems(1), of now] u obtain s1 where
    un: "undo now s = (Inr y, s1)"
    and st: "undoStack s1 = xs"
    and rd: "redoStack s1 = redoStack s @ [y]"
    and ex: "\<forall>x. getTaskById (tasks s) x \<noteq> None \<longrightarrow> getTaskById (tasks s1) x \<noteq> None" by auto
  have "modifiesExisting (tasks s) xs"
    using Suc.prems(1) u by (simp add: modifiesExisting_def)
  then have ok1: "modifiesExisting (tasks s1) (undoStack s1)"
    unfolding st using modifiesExisting_mono[of "tasks s" "tasks s1"] ex by blast
  have len1: "m \<le> length (undoStack s1)" using Suc.prems(2) st u by simp
  from Suc.IH[OF ok1 len1] obtain s' where
    m: "undoMany m now s1 = Some s'"
    and st': "undoStack s' = take (length xs - m) xs"
    and rd': "redoStack s' = redoStack s1 @ rev (drop (length xs - m) xs)"
    unfolding st by blast
  show ?case using un m st' rd' rd u by simp
qed

lemma undoMany_add:
  "undoMany (m + j) now s =
     (case undoMany m now s of None \<Rightarrow> None | Some s' \<Rightarrow> undoMany j now s')"
  by (induction m arbitrary: s) (auto split: prod.splits sum.splits)

text \<open>
  What \<open>recordAction\<close> and \<open>undo\<close> do for the history: recording keeps the undo stack
  within 20 actions and drops the earliest action of a full stack. After 21 successive
  successful \<open>updateTask\<close> calls the stack holds the actions of the last 20 calls, in
  order, without the action of the first call; 20 \<open>undo\<close> calls then succeed and empty the
  stack, moving the actions to the redo stack; the next \<open>undo\<close> throws \<open>Nothing to undo\<close>
  and leaves the store, and so both stacks, as they were. \<open>redo\<close> with an empty redo stack
  throws \<open>Nothing to redo\<close> and changes nothing either.
\<close>

theorem history_capped_at_twenty:
  assumes len: "length (undoStack s) \<le> maxHistorySize"
      and calls: "length calls = 21"
      and run: "updateMany n s calls = Some s1"
  shows "maxHistorySize = 20 \<and>
         (length (undoStack s0) \<le> maxHistorySize \<longrightarrow>
            length (undoStack (recordAction s0 a)) \<le> maxHistorySize) \<and>
         (length (undoStack s0) = maxHistorySize \<longrightarrow>
            undoStack (recordAction s0 a) = tl (undoStack s0) @ [a]) \<and>
         length (recordedBy n s calls) = 21 \<and>
         undoStack s1 = tl (recordedBy n s calls) \<and>
         (\<exists>s2. undoMany 20 now s1 = Some s2 \<and> undoStack s2 = [] \<and>
               redoStack s2 = rev (undoStack s1) \<and>
               undo now s2 = (Inl NothingToUndo, s2)) \<and>
         undoMany 21 now s1 = None \<and>
         (redoStack s3 = [] \<longrightarrow> redo now s3 = (Inl NothingToRedo, s3))"
proof -
  let ?rec = "recordedBy n s calls"
  from updateMany_stack[OF run len] calls have
    rl: "length ?rec = 21"
    and ok: "modifiesExisting (tasks s1) ?rec"
    and rd: "redoStack s1 = []"
    and st: "undoStack s1 =
               drop (length (undoStack s @ ?rec) - maxHistorySize) (undoStack s @ ?rec)"
    by auto
  have st1: "undoStack s1 = tl ?rec"
  proof -
    have "length (undoStack s @ ?rec) - maxHistorySize = length (undoStack s) + 1"
      using rl by (simp add: maxHistorySize_def)
    then have "undoStack s1 = drop 1 ?rec" using st by simp
    then show ?thesis by (simp add: drop_Suc)
  qed
  have l1: "length (undoStack s1) = 20" using st1 rl by simp
  have ok1: "modifiesExisting (tasks s1) (undoStack s1)"
    unfolding st1 using ok by (cases ?rec) (auto simp: modifiesExisting_def)
  from undoMany_ok[OF ok1, of 20 now] l1 rd obtain s2 where
    u20: "undoMany 20 now s1 = Some s2" and e: "undoStack s2 = []"
    and r2: "redoStack s2 = rev (undoStack s1)" by auto
  have fail: "undo now s2 = (Inl NothingToUndo, s2)" using e by (simp add: undo_def)
  have "undoMany (20 + 1) now s1 = None"
    unfolding undoMany_add using u20 fail by simp
  then have u21: "undoMany 21 now s1 = None" by simp
  have cap: "length (undoStack s0) \<le> maxHistorySize \<longrightarrow>
            length (undoStack (recordAction s0 a)) \<le> maxHistorySize"
    using recordAction_length by blast
  have full: "length (undoStack s0) = maxHistorySize \<longrightarrow>
            undoStack (recordAction s0 a) = tl (undoStack s0) @ [a]"
    by (cases "undoStack s0") (auto simp: recordAction_stacks maxHistorySize_def)
  have redo: "redoStack s3 = [] \<longrightarrow> redo now s3 = (Inl NothingToRedo, s3)"
    by (simp add: redo_def)
  show ?thesis using cap full rl st1 u20 e r2 fail u21 redo by (simp add: maxHistorySize_def)
qed

theorem history_capped_at_twenty_witness:
  "length (undoStack storeA) \<le> maxHistorySize \<and>
   length (replicate 21 (1::nat, setStatus InProgress, 0::nat)) = 21 \<and>
   updateMany 5 storeA (replicate 21 (1, setStatus InProgress, 0)) = Some storeA_busy \<and>
   length (undoStack storeA_busy) = maxHistorySize \<and>
   undoStack (recordAction storeA_busy (ActCreate 9 0)) =
     tl (undoStack storeA_busy) @ [ActCreate 9 0] \<and>
   undoStack storeA_busy = tl (recordedBy 5 storeA (replicate 21 (1, setStatus InProgress, 0))) \<and>
   undoMany 21 0 storeA_busy = None \<and>
   redoStack storeA_busy = [] \<and>
   redo 0 storeA_busy = (Inl NothingToRedo, storeA_busy)"
proof -
  have h1: "length (undoStack storeA) \<le> maxHistorySize" by code_simp
  have h2: "length (replicate 21 (1::nat, setStatus InProgress, 0::nat)) = 21" by simp
  have h3: "updateMany 5 storeA (replicate 21 (1, setStatus InProgress, 0)) = Some storeA_busy"
    by code_simp
  have h4: "length (undoStack storeA_busy) = maxHistorySize" by code_simp
  have h5: "redoStack storeA_busy = []" by code_simp
  from history_capped_at_twenty[OF h1 h2 h3, of storeA_busy "ActCreate 9 0" 0 storeA_busy]
  show ?thesis using h1 h2 h3 h4 h5 by simp
qed

text \<open>
  C9. The bound of 20 does not hold on every path. \<open>redo\<close> of a \<open>create\<close> action calls
  \<open>restoreTask\<close>, which records a \<open>restore\<close> action of its own and empties the redo stack;
  \<open>redo\<close> then pushes the \<open>create\<close> action as well, without looking at the size. After 20
  \<open>createTask\<close> calls the undo stack is full; one \<open>undo\<close> followed by one \<open>redo\<close> leaves
  21 actions on it.
\<close>

theorem redo_of_create_exceeds_history_cap:
  "maxHistorySize = 20 \<and>
   historySizes (createdTimes 20 (Some emptyStore)) = Some (20, 0) \<and>
   historySizes (undone (createdTimes 20 (Some emptyStore))) = Some (19, 1) \<and>
   historySizes (redone (undone (createdTimes 20 (Some emptyStore)))) = Some (21, 0)"
  by code_simp

section \<open>Failed undo and redo\<close>

lemma undo_switch_error_db: "undo_switch now d a = (Some e, d') \<Longrightarrow> d' = d"
  by (cases a)
     (auto simp: undo_switch_def updateTaskWithoutHistory_def Let_def
           split: option.splits prod.splits sum.splits)

lemma restoreTask_error_store: "restoreTask now s k = (Inl e, s') \<Longrightarrow> s' = s"
  by (auto simp: restoreTask_def Let_def split: option.splits if_splits)

lemma redo_switch_error_store: "redo_switch now s a = (Some e, s') \<Longrightarrow> s' = s"
  by (cases a)
     (auto simp: redo_switch_def updateTaskWithoutHistory_def Let_def
           dest: restoreTask_error_store split: option.splits prod.splits sum.splits)

lemma undo_error_unchanged: "undo now s = (Inl e, s') \<Longrightarrow> s' = s"
  by (auto simp: undo_def Let_def dest!: undo_switch_error_db
           split: if_splits prod.splits option.splits)

lemma redo_error_unchanged: "redo now s = (Inl e, s') \<Longrightarrow> s' = s"
  by (auto simp: redo_def Let_def dest!: redo_switch_error_store
           split: if_splits prod.splits option.splits)

text \<open>
  C10. When \<open>undo\<close> on a non-empty undo stack throws, or \<open>redo\<close> on a non-empty redo stack
  throws, the popped action is pushed back: both stacks are as they were before the call,
  and the failed action is again the top of its stack.
\<close>

theorem failed_undo_redo_keep_history:
  "(undoStack s \<noteq> [] \<and> undo now s = (Inl e, s') \<longrightarrow>
      undoStack s' = undoStack s \<and> redoStack s' = redoStack s \<and>
      last (undoStack s') = last (undoStack s)) \<and>
   (redoStack s \<noteq> [] \<and> redo now s = (Inl e2, s2) \<longrightarrow>
      undoStack s2 = undoStack s \<and> redoStack s2 = redoStack s \<and>
      last (redoStack s2) = last (redoStack s))"
  using undo_error_unchanged redo_error_unchanged by blast

theorem failed_undo_redo_keep_history_witness:
  "undoStack staleHistoryStore \<noteq> [] \<and>
   undo 0 staleHistoryStore = (Inl (TaskNotFound 7), staleHistoryStore) \<and>
   redoStack staleHistoryStore \<noteq> [] \<and>
   redo 0 staleHistoryStore = (Inl (TaskNotFound 7), staleHistoryStore) \<and>
   undoStack staleHistoryStore = [ActModify 7 (setStatus Completed) (setStatus NotStarted) 0] \<and>
   redoStack staleHistoryStore = [ActCreate 7 0]"
  using failed_undo_redo_keep_history
          [of staleHistoryStore 0 "TaskNotFound 7" staleHistoryStore
              "TaskNotFound 7" staleHistoryStore]
  by (simp add: staleHistoryStore_def undo_def undo_switch_def redo_def redo_switch_def
        updateTaskWithoutHistory_def restoreTask_def getTaskById_def Let_def)

section \<open>Changing the parent\<close>

text \<open>The example stores are the ones the operations produce from the empty store.\<close>

lemma storeA_reached: "created (Some emptyStore) (newTask ''A'' None) = Some storeA"
  by code_simp

lemma storeAB_reached: "created (Some storeA) (newTask ''B'' (Some 1)) = Some storeAB"
  by code_simp

lemma chainStore_reached: "created (Some storeAB) (newTask ''C'' (Some 2)) = Some chainStore"
  by code_simp

text \<open>
  C3. \<open>isDescendant(updates.parentTaskId, task.id)\<close> looks for the new parent among the
  children of the task and below, and never compares the two ids. On a store that holds
  the single root task 1, \<open>updateTask(1, {parentTaskId: 1})\<close> succeeds, and task 1 is stored
  as its own parent.
\<close>

theorem update_accepts_own_id_as_parent:
  "created (Some emptyStore) (newTask ''A'' None) = Some storeA \<and>
   updateTask 5 0 storeA 1 (setParent (Some 1)) =
     Some (Inr (taskA\<lparr>parentTaskId := Some 1\<rparr>), storeA_selfParent) \<and>
   map_option parentTaskId (getTaskById (tasks storeA_selfParent) 1) = Some (Some 1)"
  by code_simp

text \<open>
  C4. \<open>updateTask\<close> removes the task from the children of its old parent, and saves the old
  parent, before it looks at the new parent. When it then throws, because the new parent is
  missing or because the hierarchy would be too deep, the old parent has lost the child
  while the task still names it as parent.
\<close>

theorem failed_reparent_detaches_from_old_parent:
  "updateTask 5 0 storeAB 2 (setParent (Some 99)) =
     Some (Inl (ParentNotFound 99),
           storeAB\<lparr>tasks := [mkTask 1 ''A'' NotStarted (Some Medium) None [] False,
                             mkTask 2 ''B'' NotStarted (Some Medium) (Some 1) [] False]\<rparr>) \<and>
   rows storeAB =
     [(1, None, [2], NotStarted, Some Medium, False),
      (2, Some 1, [], NotStarted, Some Medium, False)] \<and>
   updateTask 5 0 chainStore 2 (setParent (Some 3)) =
     Some (Inl MaxHierarchyUpdate,
           chainStore\<lparr>tasks := [mkTask 1 ''A'' NotStarted (Some Medium) None [] False,
                                mkTask 2 ''B'' NotStarted (Some Medium) (Some 1) [3] False,
                                taskC]\<rparr>) \<and>
   rows chainStore =
     [(1, None, [2], NotStarted, Some Medium, False),
      (2, Some 1, [3], NotStarted, Some Medium, False),
      (3, Some 2, [], NotStarted, Some Medium, False)]"
  by code_simp

section \<open>Depth of the hierarchy\<close>

lemma getTaskDepth_loop_selfParent:
  "getTaskDepth_loop n (tasks storeA_selfParent) depth (taskA\<lparr>parentTaskId := Some 1\<rparr>) = None"
proof (induction n arbitrary: depth)
  case 0
  show ?case by simp
next
  case (Suc n)
  have p: "parentTaskId (taskA\<lparr>parentTaskId := Some 1\<rparr>) = Some 1" by simp
  have g: "getTaskById (tasks storeA_selfParent) 1 = Some (taskA\<lparr>parentTaskId := Some 1\<rparr>)"
    by code_simp
  show ?case using Suc p g by simp
qed

text \<open>
  C5. The same call \<open>updateTask(1, {parentTaskId: 1})\<close> passes the depth check, since the
  task is a root without children when the check is made. Afterwards the chain of parents
  of task 1 never ends: \<open>getTaskDepth\<close> returns no depth for it, whatever the bound.
\<close>

theorem self_parent_has_no_depth:
  "updated (created (Some emptyStore) (newTask ''A'' None)) 1 (setParent (Some 1)) =
     Some storeA_selfParent \<and>
   getTaskById (tasks storeA_selfParent) 1 = Some (taskA\<lparr>parentTaskId := Some 1\<rparr>) \<and>
   (\<forall>n. getTaskDepth n (tasks storeA_selfParent) (taskA\<lparr>parentTaskId := Some 1\<rparr>) = None)"
proof -
  have a: "updated (created (Some emptyStore) (newTask ''A'' None)) 1 (setParent (Some 1)) =
     Some storeA_selfParent" by code_simp
  have b: "getTaskById (tasks storeA_selfParent) 1 = Some (taskA\<lparr>parentTaskId := Some 1\<rparr>)"
    by code_simp
  show ?thesis using a b getTaskDepth_loop_selfParent by (simp add: getTaskDepth_def)
qed

text \<open>
  The two checks the claim names do reject what they are meant to reject: a new task under
  a parent of depth 2, and a move that would put the task's deepest descendant below
  depth 2.
\<close>

lemma createTask_rejects_parent_at_depth_two:
  assumes "d_name td = Some nm" "trim nm \<noteq> []" "d_parentTaskId td = Some p"
      and "getTaskById (tasks s) p = Some parent"
      and "getTaskDepth n (tasks s) parent = Some parentDepth" "2 \<le> parentDepth"
  shows "createTask n now s td = Some (Inl MaxHierarchyCreate, s)"
  using assms by (auto simp: createTask_def trim_def)

lemma updateTask_rejects_deep_move:
  assumes "getTaskById (tasks s) k = Some t" "u_parentTaskId u = Some (Some p)"
      and "parentTaskId t \<noteq> Some p"
      and "d1 = (case parentTaskId t of None \<Rightarrow> tasks s | Some old \<Rightarrow> removeChild (tasks s) old k)"
      and "getTaskById d1 p = Some newParent"
      and "getTaskDepth n d1 newParent = Some newParentDepth"
      and "getMaxChildDepth n d1 t = Some taskMaxChildDepth"
      and "newParentDepth + 1 + taskMaxChildDepth > 2"
  shows "updateTask n now s k u = Some (Inl MaxHierarchyUpdate, s\<lparr>tasks := d1\<rparr>)"
  using assms by (auto simp: updateTask_def updateTask_reparent_def Let_def)

section \<open>Deleting a subtree and undoing it\<close>

text \<open>
  C2. The cascade of \<open>deleteTask\<close> deletes again a child that is already deleted and
  records its id, and \<open>undo\<close> restores every recorded id. After \<open>deleteTask(2, true)\<close> and
  \<open>restoreTask(2)\<close> on the chain 1, 2, 3, task 2 is active and task 3 is deleted;
  \<open>deleteTask(2, true)\<close> followed by \<open>undo\<close> leaves task 3 active.
\<close>

theorem cascade_delete_undo_revives_deleted_child:
  "restored (deletedWith (Some chainStore) 2 True) 2 = Some chainStore_childRestored \<and>
   activeIds chainStore_childRestored = [1, 2] \<and>
   map_option activeIds (undone (deletedWith (Some chainStore_childRestored) 2 True)) =
     Some [1, 2, 3]"
  by code_simp

end
